theory Spec2Isabelle
  imports Main "HOL-Library.Word"
begin

unbundle bit_operations_syntax

section \<open>Python values and exceptions\<close>

text \<open>
  The model follows \<^verbatim>\<open>assets/generate-address-standalone.py\<close>. Python integers are
  unbounded and are modelled as \<^typ>\<open>int\<close>; \<^verbatim>\<open><<\<close>, \<^verbatim>\<open>>>\<close>, \<^verbatim>\<open>&\<close>, \<^verbatim>\<open>|\<close> and \<^verbatim>\<open>^\<close> are
  \<^const>\<open>push_bit\<close>, \<^const>\<open>drop_bit\<close>, \<open>AND\<close>, \<open>OR\<close> and \<open>XOR\<close>. A \<^verbatim>\<open>bytes\<close> object and a
  list of integers are both \<^typ>\<open>int list\<close>; where Python checks the element range
  (\<^verbatim>\<open>bytes(...)\<close>) or the dynamic type (\<^verbatim>\<open>+\<close> on sequences) the check is written out.
  Strings are \<^typ>\<open>string\<close> and stand for ASCII strings: a Python string is modelled when
  all its characters are ASCII (\<open>is_ascii\<close>), one \<^typ>\<open>char\<close> for each character.

  Every exception the source can raise is a value. The messages of the \<^verbatim>\<open>ValueError\<close>s
  raised by the source are kept apart so that the failing check can be read off.
\<close>

datatype message =
    Invalid_bech32_string_length nat   \<comment> \<open>\<^verbatim>\<open>Invalid bech32 string length {len}\<close>\<close>
  | Invalid_index_of_colon             \<comment> \<open>\<^verbatim>\<open>Invalid index of ":"\<close>\<close>
  | Invalid_character char             \<comment> \<open>\<^verbatim>\<open>Invalid character '{char}'\<close>\<close>
  | Checksum_failed                    \<comment> \<open>\<^verbatim>\<open>Checksum failed\<close>\<close>
  | Invalid_WIF_checksum               \<comment> \<open>\<^verbatim>\<open>Invalid WIF checksum\<close>\<close>
  | Invalid_WIF_length                 \<comment> \<open>\<^verbatim>\<open>Invalid WIF length\<close>\<close>
  | Invalid_network string             \<comment> \<open>\<^verbatim>\<open>Invalid network: {network}\<close>\<close>
  | Bytes_out_of_range                 \<comment> \<open>\<^verbatim>\<open>bytes must be in range(0, 256)\<close>, raised by \<^verbatim>\<open>bytes(...)\<close>\<close>
  | Library_error                      \<comment> \<open>raised inside the third-party base58 library\<close>

datatype error = ValueError message | IndexError | TypeError

text \<open>A Python sequence value together with its dynamic type, for the places where the
  type decides what an operator does.\<close>

datatype pyseq = PyList "int list" | PyBytes "int list"

fun items :: "pyseq \<Rightarrow> int list" where
  "items (PyList xs) = xs"
| "items (PyBytes xs) = xs"

text \<open>\<^verbatim>\<open>a + b\<close> on sequences: lists concatenate with lists and bytes with bytes; a list
  and a bytes object do not concatenate (\<^verbatim>\<open>TypeError: can only concatenate list (not
  "bytes") to list\<close>).\<close>

fun py_concat :: "pyseq \<Rightarrow> pyseq \<Rightarrow> error + pyseq" where
  "py_concat (PyList xs) (PyList ys) = Inr (PyList (xs @ ys))"
| "py_concat (PyBytes xs) (PyBytes ys) = Inr (PyBytes (xs @ ys))"
| "py_concat (PyList xs) (PyBytes ys) = Inl TypeError"
| "py_concat (PyBytes xs) (PyList ys) = Inl TypeError"

text \<open>\<^verbatim>\<open>bytes(xs)\<close> for a list of integers: every element must lie in \<^verbatim>\<open>range(256)\<close>.\<close>

definition is_bytes :: "int list \<Rightarrow> bool" where
  "is_bytes xs = list_all (\<lambda>x. 0 \<le> x \<and> x < 256) xs"

definition py_bytes :: "int list \<Rightarrow> error + int list" where
  "py_bytes xs = (if is_bytes xs then Inr xs else Inl (ValueError Bytes_out_of_range))"

text \<open>\<^verbatim>\<open>xs[i]\<close>: a negative index counts from the end, an index out of range raises.\<close>

definition py_index :: "'a list \<Rightarrow> int \<Rightarrow> error + 'a" where
  "py_index xs i =
     (if 0 \<le> i \<and> i < int (length xs) then Inr (xs ! nat i)
      else if - int (length xs) \<le> i \<and> i < 0 then Inr (xs ! nat (int (length xs) + i))
      else Inl IndexError)"

text \<open>
  \<^verbatim>\<open>ord(c)\<close>, \<^verbatim>\<open>s.lower()\<close> and \<^verbatim>\<open>s.upper()\<close>. On an ASCII string \<open>lower\<close> and \<open>upper\<close> are
  Python's \<^verbatim>\<open>str.lower()\<close> and \<^verbatim>\<open>str.upper()\<close>: they change the letters A-Z and a-z and
  keep the length. A character outside ASCII is left as it is, which is not what
  Python's Unicode case mapping does (it maps, for one, U+00C0 to U+00E0 and U+00B5 to
  U+039C, and may change the length); a statement about what the code does with the
  case of its input is therefore made for ASCII strings, under the hypothesis
  \<open>is_ascii\<close>.
\<close>

definition is_ascii :: "string \<Rightarrow> bool" where
  "is_ascii s = list_all (\<lambda>c. (of_char c :: nat) < 128) s"

definition ord :: "char \<Rightarrow> int" where
  "ord c = of_char c"

definition lower_char :: "char \<Rightarrow> char" where
  "lower_char c = (let n = (of_char c :: nat) in if 65 \<le> n \<and> n \<le> 90 then char_of (n + 32) else c)"

definition upper_char :: "char \<Rightarrow> char" where
  "upper_char c = (let n = (of_char c :: nat) in if 97 \<le> n \<and> n \<le> 122 then char_of (n - 32) else c)"

definition lower :: "string \<Rightarrow> string" where
  "lower s = map lower_char s"

definition upper :: "string \<Rightarrow> string" where
  "upper s = map upper_char s"

text \<open>\<^verbatim>\<open>s.rfind(c)\<close>: the highest index at which \<open>c\<close> occurs, \<open>-1\<close> when it does not.\<close>

fun rfind :: "string \<Rightarrow> char \<Rightarrow> int" where
  "rfind [] c = - 1"
| "rfind (x # xs) c =
     (let r = rfind xs c in if 0 \<le> r then r + 1 else if x = c then 0 else - 1)"

text \<open>\<^verbatim>\<open>s.index(c)\<close> for a character that occurs in \<open>s\<close>: the lowest index; the source
  calls it only after \<^verbatim>\<open>char in CHARSET\<close> has been checked.\<close>

fun index_of :: "string \<Rightarrow> char \<Rightarrow> nat" where
  "index_of [] c = 0"
| "index_of (x # xs) c = (if x = c then 0 else Suc (index_of xs c))"

section \<open>Constants\<close>

definition CHARSET :: string where
  "CHARSET = ''qpzry9x8gf2tvdw0s3jn54khce6mua7l''"

definition CHECKSUM_LENGTH :: nat where
  "CHECKSUM_LENGTH = 8"

definition GENERATOR :: "int list" where
  "GENERATOR = [0x98f2bc8e61, 0x79b76d99e2, 0xf33e5fb3c4, 0xae2eabe2a8, 0x1e4f43e470]"

section \<open>The checksum\<close>

text \<open>\<^verbatim>\<open>polymod_step\<close>: the loop over \<^verbatim>\<open>range(len(GENERATOR))\<close> is a fold over the indices.\<close>

definition polymod_step :: "int \<Rightarrow> int \<Rightarrow> int" where
  "polymod_step prev v =
     (let b = drop_bit 35 prev;
          c = push_bit 5 (prev AND 0x7ffffffff) XOR v
      in fold (\<lambda>i c. if drop_bit i b AND 1 \<noteq> 0 then c XOR GENERATOR ! i else c)
           [0..<length GENERATOR] c)"

text \<open>\<^verbatim>\<open>calculate_checksum\<close>, in two parts: the four loops that drive the accumulator,
  and the extraction of the eight symbols, wrapped in \<^verbatim>\<open>bytes(...)\<close>.\<close>

definition checksum_polymod :: "string \<Rightarrow> int list \<Rightarrow> int" where
  "checksum_polymod prefix data =
     (let polymod = 1;
          polymod = fold (\<lambda>char polymod. polymod_step polymod (ord char AND 0x1f)) prefix polymod;
          polymod = polymod_step polymod 0;
          polymod = fold (\<lambda>v polymod. polymod_step polymod v) data polymod;
          polymod = fold (\<lambda>_ polymod. polymod_step polymod 0) [0..<CHECKSUM_LENGTH] polymod
      in polymod)"

definition checksum_symbols :: "int \<Rightarrow> int list" where
  "checksum_symbols polymod =
     map (\<lambda>i. drop_bit (5 * (7 - i)) polymod AND 0x1f) [0..<CHECKSUM_LENGTH]"

definition calculate_checksum :: "string \<Rightarrow> int list \<Rightarrow> error + int list" where
  "calculate_checksum prefix data = py_bytes (checksum_symbols (checksum_polymod prefix data))"

text \<open>\<^verbatim>\<open>verify_checksum\<close>: \<^verbatim>\<open>data[:-8]\<close> and \<^verbatim>\<open>data[-8:]\<close> clip at the start of the
  sequence, as \<^const>\<open>take\<close> and \<^const>\<open>drop\<close> with natural-number subtraction do; the bare
  \<^verbatim>\<open>except:\<close> turns every exception into \<^verbatim>\<open>False\<close>.\<close>

definition verify_checksum :: "string \<Rightarrow> int list \<Rightarrow> bool" where
  "verify_checksum prefix data =
     (case calculate_checksum prefix (take (length data - CHECKSUM_LENGTH) data) of
        Inl e \<Rightarrow> False
      | Inr calculated \<Rightarrow> drop (length data - CHECKSUM_LENGTH) data = calculated)"

section \<open>Regrouping bits\<close>

text \<open>
  \<^verbatim>\<open>convert_bits\<close>. The widths are natural numbers (the program passes 8 and 5 only). The
  inner \<^verbatim>\<open>while filled_bits >= to_bits\<close> loop never ends when \<^verbatim>\<open>to_bits\<close> is 0, so it is a
  partial function: \<^const>\<open>None\<close> is "does not return". The accumulator \<^verbatim>\<open>next_byte\<close> is never
  masked in the source and keeps every bit seen so far. There is no \<^verbatim>\<open>raise\<close> in the
  function.
\<close>

partial_function (option) emit_symbols ::
  "nat \<Rightarrow> int \<Rightarrow> int list \<Rightarrow> nat \<Rightarrow> (int list \<times> nat) option" where
  "emit_symbols to_bits next_byte regrouped filled_bits =
     (if filled_bits \<ge> to_bits
      then emit_symbols to_bits next_byte
             (regrouped @ [drop_bit (filled_bits - to_bits) next_byte AND (push_bit to_bits 1 - 1)])
             (filled_bits - to_bits)
      else Some (regrouped, filled_bits))"

declare emit_symbols.simps [code]

fun convert_loop ::
  "nat \<Rightarrow> nat \<Rightarrow> int list \<Rightarrow> int list \<times> int \<times> nat \<Rightarrow> (int list \<times> int \<times> nat) option" where
  "convert_loop from_bits to_bits [] state = Some state"
| "convert_loop from_bits to_bits (v # data) (regrouped, next_byte, filled_bits) =
     (let next_byte = push_bit from_bits next_byte OR v;
          filled_bits = filled_bits + from_bits
      in (case emit_symbols to_bits next_byte regrouped filled_bits of
            None \<Rightarrow> None
          | Some (regrouped, filled_bits) \<Rightarrow>
              convert_loop from_bits to_bits data (regrouped, next_byte, filled_bits)))"

definition convert_bits :: "int list \<Rightarrow> nat \<Rightarrow> nat \<Rightarrow> bool \<Rightarrow> int list option" where
  "convert_bits data from_bits to_bits pad =
     (case convert_loop from_bits to_bits data ([], 0, 0) of
        None \<Rightarrow> None
      | Some (regrouped, next_byte, filled_bits) \<Rightarrow>
          Some (if pad \<and> filled_bits > 0
                then regrouped @
                       [push_bit (to_bits - filled_bits) next_byte AND (push_bit to_bits 1 - 1)]
                else regrouped))"

section \<open>The alphabet\<close>

text \<open>\<^verbatim>\<open>encode_to_base32\<close>: \<^verbatim>\<open>CHARSET[b]\<close> for each element, joined.\<close>

fun encode_to_base32 :: "int list \<Rightarrow> error + string" where
  "encode_to_base32 [] = Inr []"
| "encode_to_base32 (b # data) =
     (case py_index CHARSET b of
        Inl e \<Rightarrow> Inl e
      | Inr c \<Rightarrow> (case encode_to_base32 data of Inl e \<Rightarrow> Inl e | Inr s \<Rightarrow> Inr (c # s)))"

text \<open>\<^verbatim>\<open>decode_from_base32\<close>: the loop over \<^verbatim>\<open>s.lower()\<close>, then \<^verbatim>\<open>bytes(result)\<close>.\<close>

fun decode_symbols :: "string \<Rightarrow> int list \<Rightarrow> error + int list" where
  "decode_symbols [] result = Inr result"
| "decode_symbols (char # s) result =
     (if char \<notin> set CHARSET then Inl (ValueError (Invalid_character char))
      else decode_symbols s (result @ [int (index_of CHARSET char)]))"

definition decode_from_base32 :: "string \<Rightarrow> error + int list" where
  "decode_from_base32 s =
     (case decode_symbols (lower s) [] of Inl e \<Rightarrow> Inl e | Inr result \<Rightarrow> py_bytes result)"

section \<open>Addresses\<close>

text \<open>
  The result of a call is \<^const>\<open>None\<close> when the call does not return, \<open>Some (Inl e)\<close> when
  it raises \<open>e\<close> and \<open>Some (Inr v)\<close> when it returns \<open>v\<close>.

  \<^verbatim>\<open>hoosat_bech32_encode\<close> takes a prefix and a payload (a \<^verbatim>\<open>bytes\<close> object); the version
  byte \<^verbatim>\<open>0x01\<close> is written into the function. The first \<^verbatim>\<open>+\<close> adds \<^verbatim>\<open>bytes([0x01])\<close> and the
  payload. \<^verbatim>\<open>convert_bits\<close> returns the list \<^verbatim>\<open>regrouped\<close> and \<^verbatim>\<open>calculate_checksum\<close> returns
  \<^verbatim>\<open>bytes(checksum)\<close>; the second \<^verbatim>\<open>+\<close>, in \<^verbatim>\<open>converted + checksum\<close>, adds these two.
\<close>

definition hoosat_bech32_encode :: "string \<Rightarrow> int list \<Rightarrow> (error + string) option" where
  "hoosat_bech32_encode prefix payload =
     (case py_concat (PyBytes [0x01]) (PyBytes payload) of
        Inl e \<Rightarrow> Some (Inl e)
      | Inr data \<Rightarrow>
          (case convert_bits (items data) 8 5 True of
             None \<Rightarrow> None
           | Some converted \<Rightarrow>
               Some (case calculate_checksum prefix converted of
                       Inl e \<Rightarrow> Inl e
                     | Inr checksum \<Rightarrow>
                         (case py_concat (PyList converted) (PyBytes checksum) of
                            Inl e \<Rightarrow> Inl e
                          | Inr combined \<Rightarrow>
                              (case encode_to_base32 (items combined) of
                                 Inl e \<Rightarrow> Inl e
                               | Inr base32_string \<Rightarrow> Inr (prefix @ '':'' @ base32_string))))))"

text \<open>\<^verbatim>\<open>hoosat_bech32_decode\<close>. Its last three lines, \<^verbatim>\<open>version = converted[0]\<close>,
  \<^verbatim>\<open>payload = bytes(converted[1:])\<close> and the \<^verbatim>\<open>return\<close>, are \<open>extract_version_payload\<close>:
  \<^verbatim>\<open>converted[0]\<close> on an empty list raises \<^verbatim>\<open>IndexError\<close>. The length check reads the
  input as given; every later step reads the lowercased input.\<close>

definition extract_version_payload :: "string \<Rightarrow> int list \<Rightarrow> error + string \<times> int list \<times> int" where
  "extract_version_payload prefix converted =
     (case converted of
        [] \<Rightarrow> Inl IndexError
      | version # rest \<Rightarrow>
          (case py_bytes rest of
             Inl e \<Rightarrow> Inl e
           | Inr payload \<Rightarrow> Inr (prefix, payload, version)))"

definition hoosat_bech32_decode :: "string \<Rightarrow> (error + string \<times> int list \<times> int) option" where
  "hoosat_bech32_decode encoded =
     (if length encoded < CHECKSUM_LENGTH + 2
      then Some (Inl (ValueError (Invalid_bech32_string_length (length encoded))))
      else
        let normalized = lower encoded;
            colon_index = rfind normalized CHR '':''
        in if colon_index < 1 \<or> colon_index + int CHECKSUM_LENGTH + 1 > int (length normalized)
           then Some (Inl (ValueError Invalid_index_of_colon))
           else
             let prefix = take (nat colon_index) normalized;
                 data_string = drop (nat colon_index + 1) normalized
             in (case decode_from_base32 data_string of
                   Inl e \<Rightarrow> Some (Inl e)
                 | Inr decoded \<Rightarrow>
                     if \<not> verify_checksum prefix decoded
                     then Some (Inl (ValueError Checksum_failed))
                     else
                       let data_without_checksum = take (length decoded - CHECKSUM_LENGTH) decoded
                       in (case convert_bits data_without_checksum 5 8 False of
                             None \<Rightarrow> None
                           | Some converted \<Rightarrow> Some (extract_version_payload prefix converted))))"

section \<open>The generator object and the wallet import format\<close>

text \<open>
  \<^verbatim>\<open>HoosatAddressGenerator\<close>: the constructor accepts the keys of \<^verbatim>\<open>NETWORK_PREFIXES\<close> only.
\<close>

record HoosatAddressGenerator =
  gen_network :: string
  gen_prefix :: string

definition NETWORK_PREFIXES :: "(string \<times> string) list" where
  "NETWORK_PREFIXES = [(''mainnet'', ''hoosat''), (''testnet'', ''hoosattest'')]"

definition init :: "string \<Rightarrow> error + HoosatAddressGenerator" where
  "init network =
     (case map_of NETWORK_PREFIXES network of
        None \<Rightarrow> Inl (ValueError (Invalid_network network))
      | Some p \<Rightarrow> Inr \<lparr>gen_network = network, gen_prefix = p\<rparr>)"

text \<open>
  \<^verbatim>\<open>private_key_to_wif\<close> and \<^verbatim>\<open>wif_to_private_key\<close>. SHA-256 (\<^verbatim>\<open>hashlib\<close>) and the base58
  codec (the third-party \<^verbatim>\<open>base58\<close> package) are not code of the repository: they are
  parameters \<open>sha256\<close>, \<open>b58encode\<close> and \<open>b58decode\<close>; the branch that leaves the process
  when the package cannot be imported is outside the model. \<^verbatim>\<open>payload[1:-1]\<close> drops the
  first and the last byte. The decoder returns the key bytes and nothing else.
\<close>

definition private_key_to_wif ::
  "(int list \<Rightarrow> int list) \<Rightarrow> (int list \<Rightarrow> string) \<Rightarrow> HoosatAddressGenerator \<Rightarrow> int list \<Rightarrow> bool \<Rightarrow> string" where
  "private_key_to_wif sha256 b58encode self private_key compressed =
     (let version_byte = (if gen_network self = ''mainnet'' then [0x80] else [0xef]);
          extended = version_byte @ private_key;
          extended = (if compressed then extended @ [0x01] else extended);
          checksum = take 4 (sha256 (sha256 extended))
      in b58encode (extended @ checksum))"

definition wif_to_private_key ::
  "(int list \<Rightarrow> int list) \<Rightarrow> (string \<Rightarrow> error + int list) \<Rightarrow> HoosatAddressGenerator \<Rightarrow> string \<Rightarrow> error + int list" where
  "wif_to_private_key sha256 b58decode self wif =
     (case b58decode wif of
        Inl e \<Rightarrow> Inl e
      | Inr decoded \<Rightarrow>
          let payload = take (length decoded - 4) decoded;
              checksum = drop (length decoded - 4) decoded;
              calculated_checksum = take 4 (sha256 (sha256 payload))
          in if checksum \<noteq> calculated_checksum then Inl (ValueError Invalid_WIF_checksum)
             else if length payload = 33 then Inr (drop 1 payload)
             else if length payload = 34 then Inr (butlast (drop 1 payload))
             else Inl (ValueError Invalid_WIF_length))"

section \<open>The specification's reference definitions\<close>

text \<open>
  These follow the words of the specification, not the source, and are compared with
  the source's functions below.

  The checksum step: "let \<open>top = p >> 35\<close>; set \<open>p = ((p & 0x7FFFFFFFF) << 5) ^ v\<close>; for
  each of 5 fixed generator constants, if the corresponding bit of \<open>top\<close> is set, XOR \<open>p\<close>
  with that generator constant".
\<close>

definition spec_step :: "int \<Rightarrow> int \<Rightarrow> int" where
  "spec_step p v =
     (let top = drop_bit 35 p;
          p = push_bit 5 (p AND 0x7FFFFFFFF) XOR v;
          p = (if bit top 0 then p XOR 0x98f2bc8e61 else p);
          p = (if bit top 1 then p XOR 0x79b76d99e2 else p);
          p = (if bit top 2 then p XOR 0xf33e5fb3c4 else p);
          p = (if bit top 3 then p XOR 0xae2eabe2a8 else p);
          p = (if bit top 4 then p XOR 0x1e4f43e470 else p)
      in p)"

text \<open>"The low 40 bits of the accumulator, split into 8 groups of 5 bits,
  most-significant group first."\<close>

definition spec_groups :: "int \<Rightarrow> int list" where
  "spec_groups acc = (let low = acc mod 2 ^ 40 in map (\<lambda>k. low div 32 ^ (7 - k) mod 32) [0..<8])"

text \<open>"Step once per character of the prefix using \<open>ord(char) & 0x1F\<close>; once more with
  value 0; once per payload symbol; 8 more times with value 0", starting from 1.\<close>

definition spec_checksum :: "string \<Rightarrow> int list \<Rightarrow> int list" where
  "spec_checksum prefix payload =
     spec_groups (foldl spec_step 1
        (map (\<lambda>c. of_char c AND 0x1F) prefix @ [0] @ payload @ replicate 8 0))"

text \<open>The parts of an address text, read off the text itself: what stands before the
  last \<open>:\<close>, what follows it, the first character outside the alphabet, and the symbols
  the characters stand for.\<close>

definition prefix_part :: "string \<Rightarrow> string" where
  "prefix_part s = rev (drop 1 (dropWhile (\<lambda>c. c \<noteq> CHR '':'') (rev s)))"

definition data_part :: "string \<Rightarrow> string" where
  "data_part s = rev (takeWhile (\<lambda>c. c \<noteq> CHR '':'') (rev s))"

definition first_bad_character :: "string \<Rightarrow> char option" where
  "first_bad_character s = find (\<lambda>c. c \<notin> set CHARSET) s"

definition symbols_of :: "string \<Rightarrow> int list" where
  "symbols_of s = map (\<lambda>c. int (index_of CHARSET c)) s"

text \<open>The number a list of \<open>w\<close>-bit symbols spells, most significant symbol first, and
  the lists whose elements fit in \<open>w\<close> bits.\<close>

definition digits_value :: "nat \<Rightarrow> int list \<Rightarrow> int" where
  "digits_value w xs = foldl (\<lambda>a v. a * 2 ^ w + v) 0 xs"

definition in_range :: "nat \<Rightarrow> int list \<Rightarrow> bool" where
  "in_range w xs = list_all (\<lambda>x. 0 \<le> x \<and> x < 2 ^ w) xs"

text \<open>
  Stand-ins for the two libraries. They are used only where a statement that holds for
  every hash function and every codec is instantiated at a concrete input: a function
  that returns 32 bytes computed from its argument, and a codec that writes every byte
  as one character.
\<close>

definition stand_in_sha256 :: "int list \<Rightarrow> int list" where
  "stand_in_sha256 x = replicate 32 (sum_list x mod 256)"

definition stand_in_b58encode :: "int list \<Rightarrow> string" where
  "stand_in_b58encode x = map (\<lambda>b. char_of (nat b)) x"

definition stand_in_b58decode :: "string \<Rightarrow> error + int list" where
  "stand_in_b58decode s = Inr (map (\<lambda>c. int (of_char c)) s)"

section \<open>Properties of the checksum\<close>

lemma upt5: "[0..<5] = [0, 1, 2, 3, 4]"
  by (simp add: upt_rec)

lemma upt8: "[0..<8] = [0, 1, 2, 3, 4, 5, 6, 7]"
  by (simp add: upt_rec)

lemma and_1_neq_0_iff_bit: "(drop_bit i (b::int) AND 1 \<noteq> 0) = bit b i"
  by (simp add: bit_iff_and_drop_bit_eq_1 and_one_eq)

lemma GENERATOR_length: "length GENERATOR = 5"
  by (simp add: GENERATOR_def)

lemma GENERATOR_nth:
  "GENERATOR ! 0 = 0x98f2bc8e61" "GENERATOR ! 1 = 0x79b76d99e2" "GENERATOR ! 2 = 0xf33e5fb3c4"
  "GENERATOR ! 3 = 0xae2eabe2a8" "GENERATOR ! 4 = 0x1e4f43e470"
  by (simp_all add: GENERATOR_def)

lemma polymod_step_eq_spec: "polymod_step p v = spec_step p v"
  by (simp only: polymod_step_def spec_step_def Let_def GENERATOR_length upt5 fold_simps
        o_apply GENERATOR_nth and_1_neq_0_iff_bit)


lemma fold_as_foldl_map: "fold (\<lambda>x a. f a (g x)) xs a = foldl f a (map g xs)"
  by (induction xs arbitrary: a) simp_all

lemma fold_upt_as_foldl_replicate: "fold (\<lambda>_ a. f a z) [0..<n] a = foldl f a (replicate n z)"
proof (induction n arbitrary: a)
  case 0
  show ?case by simp
next
  case (Suc n)
  have "foldl f a (replicate (Suc n) z) = foldl f a (replicate n z @ [z])"
    by (simp only: replicate_append_same) simp
  then show ?case
    using Suc by simp
qed

lemma checksum_polymod_eq_spec:
  "checksum_polymod prefix data =
     foldl spec_step 1 (map (\<lambda>c. of_char c AND 0x1F) prefix @ [0] @ data @ replicate 8 0)"
proof -
  have step: "polymod_step = spec_step"
    by (intro ext) (rule polymod_step_eq_spec)
  have a: "fold (\<lambda>char polymod. spec_step polymod (ord char AND 0x1f)) prefix p
             = foldl spec_step p (map (\<lambda>c. of_char c AND 0x1F) prefix)" for p
    using fold_as_foldl_map [of spec_step "\<lambda>c. of_char c AND 0x1F" prefix p]
    by (simp add: ord_def)
  have b: "fold (\<lambda>v polymod. spec_step polymod v) data p = foldl spec_step p data" for p
    using fold_as_foldl_map [of spec_step "\<lambda>v. v" data p] by simp
  have c: "fold (\<lambda>_ polymod. spec_step polymod 0) [0..<8] p = foldl spec_step p (replicate 8 0)" for p
    by (rule fold_upt_as_foldl_replicate)
  show ?thesis
    unfolding checksum_polymod_def Let_def CHECKSUM_LENGTH_def step a b c
    by simp
qed

lemma symbol_eq_group:
  assumes "k \<le> 7"
  shows "drop_bit (5 * k) (p::int) AND 0x1f = p mod 2 ^ 40 div 32 ^ k mod 32"
proof -
  have m: "(0x1f::int) = mask 5"
    by (simp add: mask_eq_exp_minus_1)
  have "drop_bit (5 * k) p AND 0x1f = take_bit 5 (drop_bit (5 * k) p)"
    by (simp only: m take_bit_eq_mask)
  also have "\<dots> = take_bit (min 5 (40 - 5 * k)) (drop_bit (5 * k) p)"
  proof -
    have "min 5 (40 - 5 * k) = 5"
      using assms by simp
    then show ?thesis by simp
  qed
  also have "\<dots> = take_bit 5 (drop_bit (5 * k) (take_bit 40 p))"
    by (simp only: drop_bit_take_bit take_bit_take_bit)
  also have "\<dots> = p mod 2 ^ 40 div 2 ^ (5 * k) mod 2 ^ 5"
    by (simp only: take_bit_eq_mod drop_bit_eq_div)
  also have "\<dots> = p mod 2 ^ 40 div 32 ^ k mod 32"
    by (simp add: power_mult)
  finally show ?thesis .
qed

lemma checksum_symbols_eq_spec: "checksum_symbols p = spec_groups p"
  unfolding checksum_symbols_def spec_groups_def Let_def CHECKSUM_LENGTH_def
  by (rule map_cong [OF refl]) (simp add: symbol_eq_group)

lemma symbol_range: "0 \<le> drop_bit n (p::int) AND 0x1f \<and> drop_bit n p AND 0x1f < 32"
proof -
  have m: "(0x1f::int) = mask 5"
    by (simp add: mask_eq_exp_minus_1)
  have "drop_bit n p AND 0x1f = take_bit 5 (drop_bit n p)"
    by (simp only: m take_bit_eq_mask)
  moreover have "0 \<le> take_bit 5 (drop_bit n p)" "take_bit 5 (drop_bit n p) < 2 ^ 5"
    by (simp_all only: take_bit_nonnegative take_bit_int_less_exp)
  ultimately show ?thesis by simp
qed

lemma checksum_symbols_range: "x \<in> set (checksum_symbols p) \<Longrightarrow> 0 \<le> x \<and> x < 32"
  unfolding checksum_symbols_def using symbol_range by auto

lemma checksum_symbols_length: "length (checksum_symbols p) = 8"
  by (simp add: checksum_symbols_def CHECKSUM_LENGTH_def)

lemma is_bytes_checksum_symbols: "is_bytes (checksum_symbols p)"
  unfolding is_bytes_def list_all_iff using checksum_symbols_range by fastforce

lemma calculate_checksum_Inr:
  "calculate_checksum prefix data = Inr (checksum_symbols (checksum_polymod prefix data))"
  by (simp add: calculate_checksum_def py_bytes_def is_bytes_checksum_symbols)


lemma xor_range40:
  assumes "0 \<le> (c::int)" "c < 2 ^ 40" "0 \<le> g" "g < 2 ^ 40"
  shows "0 \<le> c XOR g \<and> c XOR g < 2 ^ 40"
  using assms XOR_upper [of c 40 g] by simp

lemma GENERATOR_range: "i < 5 \<Longrightarrow> 0 \<le> GENERATOR ! i \<and> GENERATOR ! i < 2 ^ 40"
proof -
  assume "i < 5"
  then have "i \<in> {0, 1, 2, 3, 4}" by auto
  then show ?thesis
    by (auto simp: GENERATOR_def)
qed

lemma fold_generators_range:
  assumes "0 \<le> (c::int)" "c < 2 ^ 40" "\<forall>i\<in>set js. i < 5"
  shows "0 \<le> fold (\<lambda>i c. if Q i then c XOR GENERATOR ! i else c) js c
       \<and> fold (\<lambda>i c. if Q i then c XOR GENERATOR ! i else c) js c < 2 ^ 40"
  using assms
proof (induction js arbitrary: c)
  case Nil
  then show ?case by simp
next
  case (Cons j js)
  have "0 \<le> (if Q j then c XOR GENERATOR ! j else c)
      \<and> (if Q j then c XOR GENERATOR ! j else c) < 2 ^ 40"
    using Cons.prems xor_range40 [of c "GENERATOR ! j"] GENERATOR_range [of j] by simp
  then show ?case
    using Cons.IH Cons.prems(3) by simp
qed

lemma shifted_range40:
  assumes "0 \<le> (v::int)" "v < 32"
  shows "0 \<le> push_bit 5 (p AND 0x7ffffffff) XOR v \<and> push_bit 5 (p AND 0x7ffffffff) XOR v < 2 ^ 40"
proof -
  have m: "(0x7ffffffff::int) = mask 35"
    by (simp add: mask_eq_exp_minus_1)
  have t: "p AND 0x7ffffffff = take_bit 35 p"
    by (simp only: m take_bit_eq_mask)
  have "0 \<le> take_bit 35 p" "take_bit 35 p < 2 ^ 35"
    by (simp_all only: take_bit_nonnegative take_bit_int_less_exp)
  then have "0 \<le> push_bit 5 (take_bit 35 p)" "push_bit 5 (take_bit 35 p) < 2 ^ 40"
    by (simp_all add: push_bit_eq_mult)
  moreover have "v < 2 ^ 40"
    using assms(2) by simp
  ultimately show ?thesis
    unfolding t using assms(1) XOR_upper [of "push_bit 5 (take_bit 35 p)" 40 v] by simp
qed

lemma polymod_step_range:
  assumes "0 \<le> v" "v < 32"
  shows "0 \<le> polymod_step p v \<and> polymod_step p v < 2 ^ 40"
  unfolding polymod_step_def Let_def GENERATOR_length
  using shifted_range40 [OF assms, of p]
  by (intro fold_generators_range) simp_all

lemma fold_generators_negative:
  assumes "(c::int) < 0" "\<forall>i\<in>set js. i < 5"
  shows "fold (\<lambda>i c. if Q i then c XOR GENERATOR ! i else c) js c < 0"
  using assms
proof (induction js arbitrary: c)
  case Nil
  then show ?case by simp
next
  case (Cons j js)
  have "0 \<le> GENERATOR ! j"
    using Cons.prems(2) GENERATOR_range [of j] by simp
  then have "(if Q j then c XOR GENERATOR ! j else c) < 0"
    using Cons.prems(1) by simp
  then show ?case
    using Cons.IH Cons.prems(2) by simp
qed

lemma polymod_step_negative:
  assumes "v < 0"
  shows "polymod_step p v < 0"
proof -
  have m: "(0x7ffffffff::int) = mask 35"
    by (simp add: mask_eq_exp_minus_1)
  have "p AND 0x7ffffffff = take_bit 35 p"
    by (simp only: m take_bit_eq_mask)
  then have "0 \<le> push_bit 5 (p AND 0x7ffffffff)"
    by simp
  then have "push_bit 5 (p AND 0x7ffffffff) XOR v < 0"
    using assms by simp
  then show ?thesis
    unfolding polymod_step_def Let_def GENERATOR_length
    by (intro fold_generators_negative) simp_all
qed

lemma polymod_step_upper: "v < 32 \<Longrightarrow> polymod_step p v < 2 ^ 40"
proof (cases "0 \<le> v")
  case True
  assume "v < 32"
  with True polymod_step_range [of v p] show ?thesis by simp
next
  case False
  then have "polymod_step p v < 0"
    by (intro polymod_step_negative) simp
  then show ?thesis by simp
qed

lemma fold_polymod_step_range:
  assumes "0 \<le> a" "a < 2 ^ 40" "\<forall>x\<in>set xs. 0 \<le> g x \<and> g x < 32"
  shows "0 \<le> fold (\<lambda>x a. polymod_step a (g x)) xs a
       \<and> fold (\<lambda>x a. polymod_step a (g x)) xs a < 2 ^ 40"
  using assms
proof (induction xs arbitrary: a)
  case Nil
  then show ?case by simp
next
  case (Cons x xs)
  have "0 \<le> polymod_step a (g x) \<and> polymod_step a (g x) < 2 ^ 40"
    using Cons.prems(3) by (intro polymod_step_range) simp_all
  then show ?case
    using Cons.IH [of "polymod_step a (g x)"] Cons.prems(3) by simp
qed

lemma ord_and_range: "0 \<le> ord c AND 0x1f \<and> ord c AND 0x1f < 32"
  using symbol_range [of 0 "ord c"] by simp

lemma checksum_polymod_range:
  assumes "\<forall>v\<in>set data. 0 \<le> v \<and> v < 32"
  shows "0 \<le> checksum_polymod prefix data \<and> checksum_polymod prefix data < 2 ^ 40"
proof -
  define p1 where "p1 = fold (\<lambda>char polymod. polymod_step polymod (ord char AND 0x1f)) prefix 1"
  define p2 where "p2 = polymod_step p1 0"
  define p3 where "p3 = fold (\<lambda>v polymod. polymod_step polymod v) data p2"
  have r2: "0 \<le> p2 \<and> p2 < 2 ^ 40"
    unfolding p2_def by (rule polymod_step_range) simp_all
  have r3: "0 \<le> p3 \<and> p3 < 2 ^ 40"
    unfolding p3_def using r2 assms
    by (intro fold_polymod_step_range [where g = "\<lambda>v. v"]) simp_all
  have "0 \<le> fold (\<lambda>_ polymod. polymod_step polymod 0) [0..<CHECKSUM_LENGTH] p3
      \<and> fold (\<lambda>_ polymod. polymod_step polymod 0) [0..<CHECKSUM_LENGTH] p3 < 2 ^ 40"
    using r3 by (intro fold_polymod_step_range [where g = "\<lambda>_. 0"]) simp_all
  then show ?thesis
    by (simp add: checksum_polymod_def p1_def p2_def p3_def)
qed

lemma foldl_polymod_step_range:
  assumes "\<forall>v\<in>set vs. 0 \<le> v \<and> v < 32"
  shows "0 \<le> foldl polymod_step 1 vs \<and> foldl polymod_step 1 vs < 2 ^ 40"
proof -
  have "foldl polymod_step 1 vs = fold (\<lambda>x a. polymod_step a x) vs 1"
    by (simp add: foldl_conv_fold)
  moreover have "0 \<le> fold (\<lambda>x a. polymod_step a x) vs 1 \<and> fold (\<lambda>x a. polymod_step a x) vs 1 < 2 ^ 40"
    using assms by (intro fold_polymod_step_range [where g = "\<lambda>v. v"]) simp_all
  ultimately show ?thesis by simp
qed

lemma checksum_polymod_as_foldl:
  "checksum_polymod prefix data =
     foldl polymod_step 1 (map (\<lambda>c. ord c AND 0x1f) prefix @ [0] @ data @ replicate 8 0)"
proof -
  have "polymod_step = spec_step"
    by (intro ext) (rule polymod_step_eq_spec)
  then show ?thesis
    by (simp add: checksum_polymod_eq_spec ord_def)
qed

lemma digits_value_8:
  "digits_value 5 [a7, a6, a5, a4, a3, a2, a1, a0] =
     ((((((a7 * 32 + a6) * 32 + a5) * 32 + a4) * 32 + a3) * 32 + a2) * 32 + a1) * 32 + a0"
  by (simp add: digits_value_def)

lemma digits_value_checksum_symbols:
  assumes "0 \<le> p" "p < 2 ^ 40"
  shows "digits_value 5 (checksum_symbols p) = p"
proof -
  define d where "d k = p div 32 ^ k" for k
  have low: "p mod 2 ^ 40 = p"
    using assms by simp
  have syms: "checksum_symbols p =
      [d 7 mod 32, d 6 mod 32, d 5 mod 32, d 4 mod 32, d 3 mod 32, d 2 mod 32, d 1 mod 32, d 0 mod 32]"
    unfolding checksum_symbols_eq_spec spec_groups_def Let_def low upt8 d_def
    by simp
  have step: "d (Suc k) * 32 + d k mod 32 = d k" for k
  proof -
    have "p div (32 ^ k * 32) = p div 32 ^ k div 32"
      by (rule zdiv_zmult2_eq) simp
    then have "d (Suc k) = d k div 32"
      by (simp add: d_def mult.commute)
    then show ?thesis by simp
  qed
  have top: "d 7 mod 32 = d 7"
    using assms by (simp add: d_def)
  have e: "d 7 * 32 + d 6 mod 32 = d 6" "d 6 * 32 + d 5 mod 32 = d 5"
    "d 5 * 32 + d 4 mod 32 = d 4" "d 4 * 32 + d 3 mod 32 = d 3" "d 3 * 32 + d 2 mod 32 = d 2"
    "d 2 * 32 + d 1 mod 32 = d 1" "d 1 * 32 + d 0 mod 32 = d 0"
    using step [of 6] step [of 5] step [of 4] step [of 3] step [of 2] step [of 1] step [of 0]
    by (simp_all add: eval_nat_numeral)
  have "d 0 = p"
    by (simp add: d_def)
  then show ?thesis
    unfolding syms digits_value_8 top e .
qed

text \<open>
  Claim C2. For every prefix and every symbol sequence, \<^verbatim>\<open>calculate_checksum\<close> returns
  (it never raises) exactly the checksum of the specification's reference definition:
  accumulator seeded with 1, one step per prefix character with \<open>ord(char) & 0x1F\<close>,
  one step with 0, one step per payload symbol, eight steps with 0, and the low 40 bits
  split into 8 groups of 5 bits, most significant first.
\<close>

theorem calculate_checksum_refines_spec:
  "calculate_checksum prefix data = Inr (spec_checksum prefix data)"
  by (simp only: calculate_checksum_Inr checksum_symbols_eq_spec checksum_polymod_eq_spec
        spec_checksum_def)

theorem calculate_checksum_refines_spec_witness:
  "calculate_checksum ''hoosat'' [] = Inr [17, 26, 22, 1, 1, 5, 22, 16]"
proof -
  have e: "spec_checksum ''hoosat'' [] = [17, 26, 22, 1, 1, 5, 22, 16]"
    by code_simp
  show ?thesis
    by (simp only: calculate_checksum_refines_spec [of "''hoosat''" "[]"] e)
qed

text \<open>
  Claim C9. The accumulator invariant: a step from an accumulator below \<open>2^40\<close> with a
  value below 32 gives an accumulator below \<open>2^40\<close>, which is not negative when the
  value is not. Started from 1, the accumulator stays in \<open>[0, 2^40)\<close> after any number
  of steps with 5-bit values, and a checksum computation is such a run of steps; hence,
  for 5-bit payload symbols, the final accumulator lies in \<open>[0, 2^40)\<close>, the eight
  extracted symbols spell exactly that accumulator, and each of them is a 5-bit value.
\<close>

theorem polymod_below_2_40:
  "(p < 2 ^ 40 \<and> v < 32 \<longrightarrow> polymod_step p v < 2 ^ 40)
   \<and> (0 \<le> v \<and> v < 32 \<longrightarrow> 0 \<le> polymod_step p v)
   \<and> ((\<forall>v\<in>set vs. 0 \<le> v \<and> v < 32) \<longrightarrow>
        0 \<le> foldl polymod_step 1 vs \<and> foldl polymod_step 1 vs < 2 ^ 40)
   \<and> checksum_polymod prefix data =
        foldl polymod_step 1 (map (\<lambda>c. ord c AND 0x1f) prefix @ [0] @ data @ replicate 8 0)
   \<and> ((\<forall>v\<in>set data. 0 \<le> v \<and> v < 32) \<longrightarrow>
      0 \<le> checksum_polymod prefix data \<and> checksum_polymod prefix data < 2 ^ 40
      \<and> calculate_checksum prefix data = Inr (checksum_symbols (checksum_polymod prefix data))
      \<and> digits_value 5 (checksum_symbols (checksum_polymod prefix data)) = checksum_polymod prefix data
      \<and> (\<forall>s\<in>set (checksum_symbols (checksum_polymod prefix data)). 0 \<le> s \<and> s < 32))"
proof (intro conjI impI)
  assume "p < 2 ^ 40 \<and> v < 32"
  then show "polymod_step p v < 2 ^ 40"
    by (intro polymod_step_upper) simp
next
  assume "0 \<le> v \<and> v < 32"
  then show "0 \<le> polymod_step p v"
    using polymod_step_range [of v p] by simp
next
  assume "\<forall>v\<in>set vs. 0 \<le> v \<and> v < 32"
  then show "0 \<le> foldl polymod_step 1 vs" "foldl polymod_step 1 vs < 2 ^ 40"
    using foldl_polymod_step_range by simp_all
next
  show "checksum_polymod prefix data =
     foldl polymod_step 1 (map (\<lambda>c. ord c AND 0x1f) prefix @ [0] @ data @ replicate 8 0)"
    by (rule checksum_polymod_as_foldl)
next
  assume d: "\<forall>v\<in>set data. 0 \<le> v \<and> v < 32"
  show r: "0 \<le> checksum_polymod prefix data" "checksum_polymod prefix data < 2 ^ 40"
    using checksum_polymod_range [OF d] by simp_all
  show "calculate_checksum prefix data = Inr (checksum_symbols (checksum_polymod prefix data))"
    by (rule calculate_checksum_Inr)
  show "digits_value 5 (checksum_symbols (checksum_polymod prefix data)) = checksum_polymod prefix data"
    using r by (rule digits_value_checksum_symbols)
  show "\<forall>s\<in>set (checksum_symbols (checksum_polymod prefix data)). 0 \<le> s \<and> s < 32"
    using checksum_symbols_range by blast
qed

theorem polymod_below_2_40_witness:
  "polymod_step 1 0 < 2 ^ 40 \<and> 0 \<le> polymod_step 1 0
   \<and> 0 \<le> foldl polymod_step 1 [8, 15] \<and> foldl polymod_step 1 [8, 15] < 2 ^ 40
   \<and> 0 \<le> checksum_polymod ''hoosat'' [3] \<and> checksum_polymod ''hoosat'' [3] < 2 ^ 40
   \<and> digits_value 5 (checksum_symbols (checksum_polymod ''hoosat'' [3])) = checksum_polymod ''hoosat'' [3]"
proof -
  have a: "(1::int) < 2 ^ 40 \<and> (0::int) < 32" and b: "(0::int) \<le> 0 \<and> (0::int) < 32"
    and c: "\<forall>v\<in>set [8, 15 :: int]. 0 \<le> v \<and> v < 32"
    and d: "\<forall>v\<in>set [3 :: int]. 0 \<le> v \<and> v < 32"
    by simp_all
  show ?thesis
    using polymod_below_2_40 [of 1 0 "[8, 15]" "''hoosat''" "[3]"] a b c d by blast
qed

section \<open>Properties of the regrouping\<close>

lemma symbol_mask: "(x::int) AND (push_bit t 1 - 1) = take_bit t x"
  by (simp add: take_bit_eq_mask mask_eq_exp_minus_1 push_bit_of_1)

lemma symbol_mask_exp: "(x::int) AND (2 ^ t - 1) = take_bit t x"
  by (simp add: take_bit_eq_mask mask_eq_exp_minus_1)

lemma digits_value_snoc: "digits_value w (xs @ [x]) = digits_value w xs * 2 ^ w + x"
  by (simp add: digits_value_def)

lemma in_range_snoc: "in_range w (xs @ [x]) = (in_range w xs \<and> 0 \<le> x \<and> x < 2 ^ w)"
  by (simp add: in_range_def)

lemma emit_step_value:
  assumes "t \<le> fb" "digits_value t rg = drop_bit fb (nb::int)"
  shows "digits_value t (rg @ [take_bit t (drop_bit (fb - t) nb)]) = drop_bit (fb - t) nb"
proof -
  define a where "a = drop_bit (fb - t) nb"
  have "drop_bit fb nb = drop_bit t a"
    using assms(1) by (simp add: a_def drop_bit_drop_bit)
  then have "digits_value t (rg @ [take_bit t a]) = push_bit t (drop_bit t a) + take_bit t a"
    by (simp add: digits_value_snoc assms(2) push_bit_eq_mult)
  also have "\<dots> = a"
    by (rule bits_ident)
  finally show ?thesis
    by (simp add: a_def)
qed

lemma emit_symbols_returns:
  assumes "0 < t"
  shows "\<exists>rg' fb'. emit_symbols t nb rg fb = Some (rg', fb')
            \<and> fb' < t
            \<and> length rg' * t + fb' = length rg * t + fb
            \<and> (in_range t rg \<longrightarrow> in_range t rg')
            \<and> (digits_value t rg = drop_bit fb nb \<longrightarrow> digits_value t rg' = drop_bit fb' nb)"
proof (induction fb arbitrary: rg rule: less_induct)
  case (less fb)
  show ?case
  proof (cases "t \<le> fb")
    case False
    then have "emit_symbols t nb rg fb = Some (rg, fb)"
      by (subst emit_symbols.simps) simp
    with False show ?thesis by simp
  next
    case True
    define x where "x = take_bit t (drop_bit (fb - t) nb)"
    have unfold: "emit_symbols t nb rg fb = emit_symbols t nb (rg @ [x]) (fb - t)"
      using True by (subst emit_symbols.simps) (simp add: symbol_mask_exp x_def)
    have "fb - t < fb"
      using assms True by simp
    from less.IH [OF this, of "rg @ [x]"] obtain rg' fb' where
      r: "emit_symbols t nb (rg @ [x]) (fb - t) = Some (rg', fb')" "fb' < t"
         "length rg' * t + fb' = length (rg @ [x]) * t + (fb - t)"
         "in_range t (rg @ [x]) \<longrightarrow> in_range t rg'"
         "digits_value t (rg @ [x]) = drop_bit (fb - t) nb \<longrightarrow> digits_value t rg' = drop_bit fb' nb"
      by blast
    have len: "length rg' * t + fb' = length rg * t + fb"
      using r(3) True by simp
    have rng: "in_range t rg \<longrightarrow> in_range t rg'"
      using r(4) by (simp add: in_range_snoc x_def)
    have val: "digits_value t rg = drop_bit fb nb \<longrightarrow> digits_value t rg' = drop_bit fb' nb"
      using r(5) emit_step_value [OF True, of rg nb] by (simp add: x_def)
    show ?thesis
      using unfold r(1,2) len rng val by simp
  qed
qed

lemma or_value_eq_add:
  assumes "0 \<le> v" "v < 2 ^ f"
  shows "push_bit f (nb::int) OR v = nb * 2 ^ f + v"
proof -
  have "take_bit f v = v"
    using assms by (simp add: take_bit_int_eq_self)
  then have "push_bit f nb OR v = take_bit f v OR push_bit f nb"
    by (simp add: or.commute)
  also have "\<dots> = concat_bit f v nb"
    by (simp add: concat_bit_def)
  also have "\<dots> = take_bit f v + push_bit f nb"
    by (rule concat_bit_eq)
  finally show ?thesis
    using \<open>take_bit f v = v\<close> by (simp add: push_bit_eq_mult)
qed

lemma drop_bit_step:
  assumes "0 \<le> v" "v < 2 ^ f"
  shows "drop_bit (fb + f) (push_bit f (nb::int) OR v) = drop_bit fb nb"
proof -
  have "drop_bit f (nb * 2 ^ f + v) = nb"
    using assms by (simp add: drop_bit_eq_div)
  then have "drop_bit fb (drop_bit f (nb * 2 ^ f + v)) = drop_bit fb nb"
    by simp
  then show ?thesis
    by (simp add: or_value_eq_add [OF assms] drop_bit_drop_bit add.commute)
qed

lemma convert_loop_returns:
  assumes "0 < t"
  shows "\<exists>rg' nb' fb'. convert_loop f t data (rg, nb, fb) = Some (rg', nb', fb')
            \<and> (fb < t \<or> data \<noteq> [] \<longrightarrow> fb' < t)
            \<and> length rg' * t + fb' = length rg * t + fb + length data * f
            \<and> (in_range t rg \<longrightarrow> in_range t rg')"
proof (induction data arbitrary: rg nb fb)
  case Nil
  show ?case by simp
next
  case (Cons v data)
  define nb1 where "nb1 = push_bit f nb OR v"
  obtain rg1 fb1 where
    e: "emit_symbols t nb1 rg (fb + f) = Some (rg1, fb1)" "fb1 < t"
       "length rg1 * t + fb1 = length rg * t + (fb + f)" "in_range t rg \<longrightarrow> in_range t rg1"
    using emit_symbols_returns [OF assms, of nb1 rg "fb + f"] by blast
  obtain rg' nb' fb' where
    c: "convert_loop f t data (rg1, nb1, fb1) = Some (rg', nb', fb')"
       "fb1 < t \<or> data \<noteq> [] \<longrightarrow> fb' < t"
       "length rg' * t + fb' = length rg1 * t + fb1 + length data * f"
       "in_range t rg1 \<longrightarrow> in_range t rg'"
    using Cons.IH [of rg1 nb1 fb1] by blast
  have "convert_loop f t (v # data) (rg, nb, fb) = Some (rg', nb', fb')"
    using e(1) c(1) by (simp add: nb1_def)
  moreover have "fb' < t"
    using c(2) e(2) by simp
  moreover have "length rg' * t + fb' = length rg * t + fb + length (v # data) * f"
    using c(3) e(3) by simp
  moreover have "in_range t rg \<longrightarrow> in_range t rg'"
    using c(4) e(4) by simp
  ultimately show ?case by blast
qed

lemma convert_loop_value:
  assumes "0 < t" "in_range f data" "digits_value t rg = drop_bit fb nb"
    and "convert_loop f t data (rg, nb, fb) = Some (rg', nb', fb')"
  shows "digits_value t rg' = drop_bit fb' nb' \<and> nb' = foldl (\<lambda>a v. a * 2 ^ f + v) nb data"
  using assms(2-)
proof (induction data arbitrary: rg nb fb)
  case Nil
  then show ?case by simp
next
  case (Cons v data)
  have v: "0 \<le> v" "v < 2 ^ f" and d: "in_range f data"
    using Cons.prems(1) by (simp_all add: in_range_def)
  define nb1 where "nb1 = push_bit f nb OR v"
  obtain rg1 fb1 where
    e: "emit_symbols t nb1 rg (fb + f) = Some (rg1, fb1)"
       "digits_value t rg = drop_bit (fb + f) nb1 \<longrightarrow> digits_value t rg1 = drop_bit fb1 nb1"
    using emit_symbols_returns [OF assms(1), of nb1 rg "fb + f"] by blast
  have "digits_value t rg = drop_bit (fb + f) nb1"
    using Cons.prems(2) drop_bit_step [OF v, of fb nb] by (simp add: nb1_def)
  then have v1: "digits_value t rg1 = drop_bit fb1 nb1"
    using e(2) by simp
  have "convert_loop f t data (rg1, nb1, fb1) = Some (rg', nb', fb')"
    using Cons.prems(3) e(1) by (simp add: nb1_def)
  from Cons.IH [OF d v1 this]
  have "digits_value t rg' = drop_bit fb' nb'" "nb' = foldl (\<lambda>a v. a * 2 ^ f + v) nb1 data"
    by simp_all
  moreover have "nb1 = nb * 2 ^ f + v"
    unfolding nb1_def by (rule or_value_eq_add [OF v])
  ultimately show ?case by simp
qed


lemma convert_loop_initial:
  assumes "0 < t"
  obtains rg nb fb where "convert_loop f t data ([], 0, 0) = Some (rg, nb, fb)" "fb < t"
    "length rg * t + fb = length data * f" "in_range t rg"
proof -
  have "in_range t []"
    by (simp add: in_range_def)
  with convert_loop_returns [OF assms, of f data "[]" 0 0] assms show thesis
    using that by auto
qed

lemma div_mod_unique:
  fixes q r t :: nat
  assumes "r < t" "q * t + r = n"
  shows "q = n div t \<and> r = n mod t"
  using assms by auto

lemma convert_bits_returns:
  assumes "0 < t"
  shows "\<exists>ys. convert_bits data f t pad = Some ys \<and> in_range t ys
           \<and> length ys = (if pad then (length data * f + t - 1) div t else length data * f div t)"
proof -
  obtain rg nb fb where
    c: "convert_loop f t data ([], 0, 0) = Some (rg, nb, fb)" "fb < t"
       "length rg * t + fb = length data * f" "in_range t rg"
    by (rule convert_loop_initial [OF assms])
  have q: "length rg = length data * f div t" "fb = length data * f mod t"
    using div_mod_unique [OF c(2,3)] by simp_all
  show ?thesis
  proof (cases "pad \<and> 0 < fb")
    case False
    then have ys: "convert_bits data f t pad = Some rg"
      by (simp add: convert_bits_def c(1))
    have "length rg = (if pad then (length data * f + t - 1) div t else length data * f div t)"
    proof (cases pad)
      case True
      with False have "fb = 0" by simp
      then have "length data * f + t - 1 = length rg * t + (t - 1)"
        using c(3) assms by simp
      moreover have "t - 1 < t"
        using assms by simp
      ultimately have "(length data * f + t - 1) div t = length rg"
        using div_mod_unique [of "t - 1" t "length rg" "length data * f + t - 1"] by simp
      with True show ?thesis by simp
    next
      case False
      then show ?thesis by (simp add: q)
    qed
    with ys c(4) show ?thesis by simp
  next
    case True
    define x where "x = take_bit t (push_bit (t - fb) nb)"
    have ys: "convert_bits data f t pad = Some (rg @ [x])"
      using True by (simp add: convert_bits_def c(1) symbol_mask_exp x_def)
    have "in_range t (rg @ [x])"
      using c(4) by (simp add: in_range_snoc x_def)
    moreover have "length (rg @ [x]) = (length data * f + t - 1) div t"
    proof -
      obtain m where m: "fb = Suc m"
        using True by (cases fb) auto
      have "length data * f + t - 1 = length rg * t + fb + t - 1"
        using c(3) by simp
      then have "length data * f + t - 1 = (length rg + 1) * t + (fb - 1)"
        by (simp add: m)
      moreover have "fb - 1 < t"
        using c(2) by simp
      ultimately have "(length data * f + t - 1) div t = length rg + 1"
        using div_mod_unique [of "fb - 1" t "length rg + 1" "length data * f + t - 1"] by simp
      then show ?thesis by simp
    qed
    ultimately show ?thesis
      using ys True by simp
  qed
qed

lemma foldl_digits_value: "foldl (\<lambda>a v. a * 2 ^ f + v) 0 data = digits_value f data"
  by (simp add: digits_value_def)

lemma pad_symbol_value:
  assumes "fb < t" "0 < fb" "digits_value t rg = drop_bit fb (nb::int)"
  shows "digits_value t (rg @ [take_bit t (push_bit (t - fb) nb)]) = push_bit (t - fb) nb"
proof -
  define a where "a = push_bit (t - fb) nb"
  have "drop_bit t a = drop_bit fb nb"
    using assms(1) by (simp add: a_def drop_bit_push_bit)
  then have "digits_value t (rg @ [take_bit t a]) = push_bit t (drop_bit t a) + take_bit t a"
    by (simp add: digits_value_snoc assms(3) push_bit_eq_mult)
  also have "\<dots> = a"
    by (rule bits_ident)
  finally show ?thesis
    by (simp add: a_def)
qed

lemma convert_bits_value_unpadded:
  assumes "0 < t" "in_range f data" "convert_bits data f t False = Some ys"
  shows "digits_value t ys = drop_bit (length data * f mod t) (digits_value f data)"
proof -
  obtain rg nb fb where
    c: "convert_loop f t data ([], 0, 0) = Some (rg, nb, fb)" "fb < t"
       "length rg * t + fb = length data * f" "in_range t rg"
    by (rule convert_loop_initial [OF assms(1)])
  have "digits_value t [] = drop_bit 0 (0::int)"
    by (simp add: digits_value_def)
  from convert_loop_value [OF assms(1,2) this c(1)]
  have v: "digits_value t rg = drop_bit fb nb" "nb = digits_value f data"
    by (simp_all add: foldl_digits_value)
  have "fb = length data * f mod t"
    using div_mod_unique [OF c(2,3)] by simp
  moreover have "ys = rg"
    using assms(3) by (simp add: convert_bits_def c(1))
  ultimately show ?thesis
    using v by simp
qed

lemma convert_bits_value_padded:
  assumes "0 < t" "in_range f data" "convert_bits data f t True = Some ys"
  shows "\<exists>k < t. length ys * t = length data * f + k
           \<and> digits_value t ys = push_bit k (digits_value f data)"
proof -
  obtain rg nb fb where
    c: "convert_loop f t data ([], 0, 0) = Some (rg, nb, fb)" "fb < t"
       "length rg * t + fb = length data * f" "in_range t rg"
    by (rule convert_loop_initial [OF assms(1)])
  have "digits_value t [] = drop_bit 0 (0::int)"
    by (simp add: digits_value_def)
  from convert_loop_value [OF assms(1,2) this c(1)]
  have v: "digits_value t rg = drop_bit fb nb" "nb = digits_value f data"
    by (simp_all add: foldl_digits_value)
  show ?thesis
  proof (cases "0 < fb")
    case False
    then have "ys = rg" "fb = 0"
      using assms(3) by (simp_all add: convert_bits_def c(1))
    then have "length ys * t = length data * f + 0 \<and> digits_value t ys = push_bit 0 (digits_value f data)"
      using c(3) v by simp
    with assms(1) show ?thesis by blast
  next
    case True
    then have ys: "ys = rg @ [take_bit t (push_bit (t - fb) nb)]"
      using assms(3) by (simp add: convert_bits_def c(1) symbol_mask_exp)
    have "digits_value t ys = push_bit (t - fb) (digits_value f data)"
      unfolding ys using pad_symbol_value [OF c(2) True v(1)] v(2) by simp
    moreover have "length ys * t = length data * f + (t - fb)"
      using c(2,3) by (simp add: ys)
    moreover have "t - fb < t"
      using True c(2) by simp
    ultimately show ?thesis by blast
  qed
qed

lemma digits_value_inj:
  assumes "in_range w xs" "in_range w ys" "length xs = length ys"
    and "digits_value w xs = digits_value w ys"
  shows "xs = ys"
  using assms
proof (induction xs arbitrary: ys rule: rev_induct)
  case Nil
  then show ?case by simp
next
  case (snoc x xs)
  from snoc.prems(3) obtain y ys' where ys: "ys = ys' @ [y]"
    by (cases ys rule: rev_cases) simp_all
  have x: "0 \<le> x" "x < 2 ^ w" and xs: "in_range w xs"
    using snoc.prems(1) by (simp_all add: in_range_snoc)
  have y: "0 \<le> y" "y < 2 ^ w" and ys': "in_range w ys'"
    using snoc.prems(2) by (simp_all add: ys in_range_snoc)
  have eq: "digits_value w xs * 2 ^ w + x = digits_value w ys' * 2 ^ w + y"
    using snoc.prems(4) by (simp add: ys digits_value_snoc)
  have "(digits_value w xs * 2 ^ w + x) mod 2 ^ w = x" "(digits_value w ys' * 2 ^ w + y) mod 2 ^ w = y"
    using x y by simp_all
  with eq have "x = y" by simp
  have "(digits_value w xs * 2 ^ w + x) div 2 ^ w = digits_value w xs"
       "(digits_value w ys' * 2 ^ w + y) div 2 ^ w = digits_value w ys'"
    using x y by simp_all
  with eq have "digits_value w xs = digits_value w ys'" by simp
  with snoc.IH [OF xs ys'] snoc.prems(3) have "xs = ys'"
    by (simp add: ys)
  with \<open>x = y\<close> show ?case
    by (simp add: ys)
qed

lemma convert_bits_round_trip:
  assumes "0 < t" "t \<le> f" "in_range f data"
  shows "\<exists>ys. convert_bits data f t True = Some ys \<and> in_range t ys
           \<and> length ys = (length data * f + t - 1) div t
           \<and> convert_bits ys t f False = Some data"
proof -
  have f: "0 < f"
    using assms(1,2) by simp
  obtain ys where ys: "convert_bits data f t True = Some ys" "in_range t ys"
      "length ys = (length data * f + t - 1) div t"
    using convert_bits_returns [OF assms(1), of data f True] by auto
  obtain k where k: "k < t" "length ys * t = length data * f + k"
      "digits_value t ys = push_bit k (digits_value f data)"
    using convert_bits_value_padded [OF assms(1,3) ys(1)] by blast
  obtain zs where zs: "convert_bits ys t f False = Some zs" "in_range f zs"
      "length zs = length ys * t div f"
    using convert_bits_returns [OF f, of ys t False] by auto
  have kf: "k < f"
    using k(1) assms(2) by simp
  have len: "length zs = length data"
    using zs(3) k(2) kf by simp
  have "length ys * t mod f = k"
    using k(2) kf by simp
  then have "digits_value f zs = drop_bit k (digits_value t ys)"
    using convert_bits_value_unpadded [OF f ys(2) zs(1)] by simp
  then have "digits_value f zs = digits_value f data"
    by (simp add: k(3) drop_bit_push_bit)
  from digits_value_inj [OF zs(2) assms(3) len this] have "zs = data" .
  with ys zs(1) show ?thesis by blast
qed

section \<open>Properties of the address text\<close>

subsection \<open>Characters and the alphabet\<close>

lemma CHARSET_length: "length CHARSET = 32"
  by (simp add: CHARSET_def)

lemma CHARSET_distinct: "distinct CHARSET"
  by (simp add: CHARSET_def)

lemma colon_not_in_CHARSET: "CHR '':'' \<notin> set CHARSET"
  by (simp add: CHARSET_def)

lemma lower_char_CHARSET: "c \<in> set CHARSET \<Longrightarrow> lower_char c = c"
  by (auto simp: CHARSET_def lower_char_def)

lemma lower_char_colon: "lower_char CHR '':'' = CHR '':''"
  by (simp add: lower_char_def)

lemma lower_char_idem: "lower_char (lower_char c) = lower_char c"
proof -
  have "of_char (char_of (of_char c + 32 :: nat)) = ((of_char c + 32) mod 256 :: nat)"
    by (simp only: of_char_of)
  moreover have "65 \<le> (of_char c :: nat) \<Longrightarrow> of_char c \<le> (90 :: nat) \<Longrightarrow>
      \<not> (65 \<le> (of_char c + 32) mod 256 \<and> (of_char c + 32) mod 256 \<le> (90 :: nat))"
    by simp
  ultimately show ?thesis
    by (auto simp: lower_char_def Let_def)
qed

lemma lower_upper_char: "lower_char (upper_char c) = lower_char c"
proof -
  define n where "n = (of_char c :: nat)"
  show ?thesis
  proof (cases "97 \<le> n \<and> n \<le> 122")
    case False
    then show ?thesis by (auto simp: upper_char_def n_def Let_def)
  next
    case True
    then have u: "upper_char c = char_of (n - 32)"
      by (simp add: upper_char_def n_def Let_def)
    have "n - 32 < 256"
      using True by arith
    then have m: "(n - 32) mod 256 = n - 32"
      by simp
    have "65 \<le> n - 32 \<and> n - 32 \<le> 90"
      using True by arith
    then have "lower_char (char_of (n - 32)) = char_of ((n - 32) + 32)"
      by (simp add: lower_char_def Let_def m)
    also have "\<dots> = char_of n"
      using True by simp
    also have "\<dots> = c"
      by (simp add: n_def)
    finally have "lower_char (upper_char c) = c"
      by (simp add: u)
    moreover have "lower_char c = c"
      using True by (simp add: lower_char_def n_def)
    ultimately show ?thesis by simp
  qed
qed

lemma lower_idem: "lower (lower s) = lower s"
  by (simp add: lower_def lower_char_idem)

lemma lower_upper: "lower (upper s) = lower s"
  by (simp add: lower_def upper_def lower_upper_char)

lemma lower_length: "length (lower s) = length s"
  by (simp add: lower_def)

lemma lower_append: "lower (xs @ ys) = lower xs @ lower ys"
  by (simp add: lower_def)

lemma lower_fixed: "(\<And>c. c \<in> set s \<Longrightarrow> lower_char c = c) \<Longrightarrow> lower s = s"
  by (simp add: lower_def map_idI)

lemma lower_part_fixed: "lower n = n \<Longrightarrow> n = xs @ ys \<Longrightarrow> lower ys = ys"
  by (simp add: lower_def)

subsection \<open>Searching\<close>

lemma rfind_absent: "c \<notin> set s \<Longrightarrow> rfind s c = - 1"
  by (induction s) (auto simp: Let_def)

lemma rfind_last: "c \<notin> set d \<Longrightarrow> rfind (p @ c # d) c = int (length p)"
  by (induction p) (simp_all add: Let_def rfind_absent)

lemma prefix_part_split: "c = CHR '':'' \<Longrightarrow> c \<notin> set d \<Longrightarrow> prefix_part (p @ c # d) = p"
proof -
  assume c: "c = CHR '':''" "c \<notin> set d"
  have "dropWhile (\<lambda>x. x \<noteq> CHR '':'') (rev d @ c # rev p) = c # rev p"
    using c by (auto simp: dropWhile_append3)
  then show ?thesis
    by (simp add: prefix_part_def)
qed

lemma data_part_split: "c = CHR '':'' \<Longrightarrow> c \<notin> set d \<Longrightarrow> data_part (p @ c # d) = d"
proof -
  assume c: "c = CHR '':''" "c \<notin> set d"
  have "takeWhile (\<lambda>x. x \<noteq> CHR '':'') (rev d @ c # rev p) = rev d"
    using c by (auto simp: takeWhile_tail)
  then show ?thesis
    by (simp add: data_part_def)
qed

lemma index_of_nth: "distinct xs \<Longrightarrow> n < length xs \<Longrightarrow> index_of xs (xs ! n) = n"
proof (induction xs arbitrary: n)
  case Nil
  then show ?case by simp
next
  case (Cons x xs)
  then show ?case
    by (cases n) auto
qed

lemma index_of_less: "c \<in> set xs \<Longrightarrow> index_of xs c < length xs"
  by (induction xs) auto

lemma nth_index_of: "c \<in> set xs \<Longrightarrow> xs ! index_of xs c = c"
  by (induction xs) auto

subsection \<open>The base-32 text\<close>

lemma py_index_CHARSET: "0 \<le> b \<Longrightarrow> b < 32 \<Longrightarrow> py_index CHARSET b = Inr (CHARSET ! nat b)"
  by (simp add: py_index_def CHARSET_length)

lemma encode_to_base32_in_range:
  "in_range 5 xs \<Longrightarrow> encode_to_base32 xs = Inr (map (\<lambda>b. CHARSET ! nat b) xs)"
  by (induction xs) (simp_all add: in_range_def py_index_CHARSET)

lemma base32_chars_in_CHARSET:
  "in_range 5 xs \<Longrightarrow> set (map (\<lambda>b. CHARSET ! nat b) xs) \<subseteq> set CHARSET"
proof -
  assume r: "in_range 5 xs"
  have "CHARSET ! nat b \<in> set CHARSET" if "b \<in> set xs" for b
  proof -
    have "0 \<le> b \<and> b < 32"
      using r that by (simp add: in_range_def list_all_iff)
    then have "nat b < length CHARSET"
      by (auto simp: CHARSET_length)
    then show ?thesis by (rule nth_mem)
  qed
  then show ?thesis by auto
qed

lemma symbols_of_base32:
  "in_range 5 xs \<Longrightarrow> symbols_of (map (\<lambda>b. CHARSET ! nat b) xs) = xs"
proof -
  assume r: "in_range 5 xs"
  have "int (index_of CHARSET (CHARSET ! nat b)) = b" if "b \<in> set xs" for b
  proof -
    have b: "0 \<le> b \<and> b < 32"
      using r that by (simp add: in_range_def list_all_iff)
    then have "index_of CHARSET (CHARSET ! nat b) = nat b"
      by (intro index_of_nth) (auto simp: CHARSET_distinct CHARSET_length)
    with b show ?thesis by simp
  qed
  then show ?thesis
    by (simp add: symbols_of_def map_idI)
qed

lemma symbols_of_length: "length (symbols_of s) = length s"
  by (simp add: symbols_of_def)

lemma symbols_of_in_range:
  "first_bad_character s = None \<Longrightarrow> in_range 5 (symbols_of s)"
proof -
  assume "first_bad_character s = None"
  then have all: "\<forall>c\<in>set s. c \<in> set CHARSET"
    by (simp add: first_bad_character_def find_None_iff)
  have "0 \<le> int (index_of CHARSET c) \<and> int (index_of CHARSET c) < 2 ^ 5" if "c \<in> set s" for c
    using index_of_less [of c CHARSET] all that by (simp add: CHARSET_length)
  then show ?thesis
    by (simp add: in_range_def symbols_of_def list_all_iff)
qed

lemma in_range_5_is_bytes: "in_range 5 xs \<Longrightarrow> is_bytes xs"
  unfolding in_range_def is_bytes_def list_all_iff by auto

lemma in_range_8_is_bytes: "in_range 8 xs = is_bytes xs"
  by (simp add: in_range_def is_bytes_def)

lemma decode_symbols_eq:
  "decode_symbols s acc =
     (case first_bad_character s of
        Some c \<Rightarrow> Inl (ValueError (Invalid_character c))
      | None \<Rightarrow> Inr (acc @ symbols_of s))"
  by (induction s arbitrary: acc)
    (simp_all add: first_bad_character_def symbols_of_def split: option.split)

lemma decode_from_base32_eq:
  assumes "lower s = s"
  shows "decode_from_base32 s =
     (case first_bad_character s of
        Some c \<Rightarrow> Inl (ValueError (Invalid_character c))
      | None \<Rightarrow> Inr (symbols_of s))"
proof (cases "first_bad_character s")
  case None
  then have "is_bytes (symbols_of s)"
    by (intro in_range_5_is_bytes symbols_of_in_range)
  with None show ?thesis
    by (simp add: decode_from_base32_def assms decode_symbols_eq py_bytes_def)
next
  case (Some c)
  then show ?thesis
    by (simp add: decode_from_base32_def assms decode_symbols_eq)
qed

subsection \<open>What the decoder does, check by check\<close>

lemma verify_checksum_eq:
  "verify_checksum p d =
     (drop (length d - 8) d = checksum_symbols (checksum_polymod p (take (length d - 8) d)))"
  by (simp add: verify_checksum_def calculate_checksum_Inr CHECKSUM_LENGTH_def)


lemma hoosat_bech32_decode_cascade:
  "hoosat_bech32_decode encoded =
     (if length encoded < 10
      then Some (Inl (ValueError (Invalid_bech32_string_length (length encoded))))
      else if CHR '':'' \<notin> set (lower encoded) \<or> prefix_part (lower encoded) = []
                \<or> length (data_part (lower encoded)) < 8
      then Some (Inl (ValueError Invalid_index_of_colon))
      else (case first_bad_character (data_part (lower encoded)) of
              Some c \<Rightarrow> Some (Inl (ValueError (Invalid_character c)))
            | None \<Rightarrow>
                if \<not> verify_checksum (prefix_part (lower encoded)) (symbols_of (data_part (lower encoded)))
                then Some (Inl (ValueError Checksum_failed))
                else (case convert_bits
                             (take (length (data_part (lower encoded)) - 8)
                                (symbols_of (data_part (lower encoded)))) 5 8 False of
                        None \<Rightarrow> None
                      | Some converted \<Rightarrow>
                          Some (extract_version_payload (prefix_part (lower encoded)) converted))))"
proof -
  define n where "n = lower encoded"
  have ln: "length n = length encoded" and low: "lower n = n"
    by (simp_all add: n_def lower_length lower_idem)
  show ?thesis
  proof (cases "length encoded < 10")
    case True
    then show ?thesis
      by (simp add: hoosat_bech32_decode_def CHECKSUM_LENGTH_def)
  next
    case long: False
    show ?thesis
    proof (cases "CHR '':'' \<in> set n")
      case False
      then have "rfind n CHR '':'' = - 1"
        by (rule rfind_absent)
      with False long show ?thesis
        unfolding hoosat_bech32_decode_def Let_def n_def [symmetric]
        by (simp add: CHECKSUM_LENGTH_def)
    next
      case True
      then obtain p d where split: "n = p @ CHR '':'' # d" "CHR '':'' \<notin> set d"
        using split_list_last [of "CHR '':''" n] by blast
      have rf: "rfind n CHR '':'' = int (length p)"
        unfolding split(1) using split(2) by (rule rfind_last)
      have pp: "prefix_part n = p" and dp: "data_part n = d"
        unfolding split(1) using split(2) by (simp_all add: prefix_part_split data_part_split)
      have tk: "take (length p) n = p" and dr: "drop (Suc (length p)) n = d"
        by (simp_all add: split(1))
      have len: "length n = Suc (length p + length d)"
        by (simp add: split(1))
      have ld: "lower d = d"
        using low split(1) lower_part_fixed [of n "p @ [CHR '':'']" d] by simp
      have dec: "decode_from_base32 d =
          (case first_bad_character d of
             Some c \<Rightarrow> Inl (ValueError (Invalid_character c))
           | None \<Rightarrow> Inr (symbols_of d))"
        by (rule decode_from_base32_eq [OF ld])
      show ?thesis
        unfolding hoosat_bech32_decode_def Let_def n_def [symmetric]
        using long True
        by (auto simp: CHECKSUM_LENGTH_def rf pp dp tk dr len dec symbols_of_length
              split: option.split)
    qed
  qed
qed


lemma parts_length:
  assumes "CHR '':'' \<in> set n"
  shows "length n = length (prefix_part n) + 1 + length (data_part n)"
proof -
  obtain p d where split: "n = p @ CHR '':'' # d" "CHR '':'' \<notin> set d"
    using assms split_list_last [of "CHR '':''" n] by blast
  have "prefix_part n = p" "data_part n = d"
    unfolding split(1) using split(2) by (simp_all add: prefix_part_split data_part_split)
  moreover have "length n = length p + 1 + length d"
    by (simp add: split(1))
  ultimately show ?thesis by simp
qed

lemma convert_bits_empty: "convert_bits [] f t pad = Some []"
  by (simp add: convert_bits_def)

lemma decode_depends_on_lower:
  assumes "lower t = lower s"
  shows "hoosat_bech32_decode t = hoosat_bech32_decode s"
proof -
  have "length (lower t) = length (lower s)"
    by (simp only: assms)
  then have len: "length t = length s"
    by (simp only: lower_length)
  show ?thesis
    by (simp only: hoosat_bech32_decode_def assms len)
qed

section \<open>Checksum verification\<close>

text \<open>
  Claim C7. For every prefix and every symbol sequence \<^verbatim>\<open>verify_checksum\<close> returns a
  boolean: true exactly when the sequence has at least 8 symbols and its last 8 symbols
  are the checksum recomputed over the symbols before them. No exception escapes: the
  recomputation never raises, and a sequence shorter than 8 symbols gives false.
\<close>

theorem verify_checksum_total:
  "verify_checksum prefix data =
     (8 \<le> length data
      \<and> calculate_checksum prefix (take (length data - 8) data) = Inr (drop (length data - 8) data))
   \<and> (length data < 8 \<longrightarrow> \<not> verify_checksum prefix data)"
proof -
  define cs where "cs = checksum_symbols (checksum_polymod prefix (take (length data - 8) data))"
  have l: "length cs = 8"
    by (simp add: cs_def checksum_symbols_length)
  have v: "verify_checksum prefix data = (drop (length data - 8) data = cs)"
    by (simp add: verify_checksum_eq cs_def)
  have c: "calculate_checksum prefix (take (length data - 8) data) = Inr cs"
    by (simp add: calculate_checksum_Inr cs_def)
  have short: "drop (length data - 8) data \<noteq> cs" if "length data < 8"
  proof
    assume "drop (length data - 8) data = cs"
    then have "length (drop (length data - 8) data) = 8"
      by (simp add: l)
    with that show False by simp
  qed
  show ?thesis
  proof (cases "length data < 8")
    case True
    with short show ?thesis
      unfolding v c by simp
  next
    case False
    then show ?thesis
      unfolding v c by auto
  qed
qed

theorem verify_checksum_total_witness:
  "verify_checksum ''hoosat'' [17, 26, 22, 1, 1, 5, 22, 16] \<and> \<not> verify_checksum ''hoosat'' [17, 26, 22]"
proof -
  have "calculate_checksum ''hoosat'' [] = Inr [17, 26, 22, 1, 1, 5, 22, 16]"
    by code_simp
  then show ?thesis
    using verify_checksum_total [of "''hoosat''" "[17, 26, 22, 1, 1, 5, 22, 16]"]
      verify_checksum_total [of "''hoosat''" "[17, 26, 22]"]
    by simp
qed

section \<open>An address text with no payload\<close>

text \<open>
  Claim C10. An input whose last \<open>:\<close> follows a non-empty prefix and is followed by exactly
  8 alphabet characters that are a valid checksum over the empty payload passes the
  length, separator, character and checksum checks; the regrouped byte sequence is
  empty, and \<^verbatim>\<open>converted[0]\<close> raises \<^verbatim>\<open>IndexError\<close>. Such inputs exist:
  \<^verbatim>\<open>hoosat:36kpp9ks\<close> is one.
\<close>

theorem decode_checksum_only_IndexError:
  assumes "CHR '':'' \<in> set (lower s)" "prefix_part (lower s) \<noteq> []"
    and "length (data_part (lower s)) = 8"
    and "first_bad_character (data_part (lower s)) = None"
    and "verify_checksum (prefix_part (lower s)) (symbols_of (data_part (lower s)))"
  shows "hoosat_bech32_decode s = Some (Inl IndexError)"
proof -
  have "length (lower s) = length (prefix_part (lower s)) + 1 + length (data_part (lower s))"
    by (rule parts_length [OF assms(1)])
  moreover have "1 \<le> length (prefix_part (lower s))"
    using assms(2) by (cases "prefix_part (lower s)") simp_all
  ultimately have "10 \<le> length s"
    unfolding lower_length assms(3) by linarith
  then show ?thesis
    using assms
    by (simp add: hoosat_bech32_decode_cascade convert_bits_empty extract_version_payload_def)
qed

theorem decode_checksum_only_IndexError_witness:
  "hoosat_bech32_decode ''hoosat:36kpp9ks'' = Some (Inl IndexError)"
proof -
  have l: "lower ''hoosat:36kpp9ks'' = ''hoosat:36kpp9ks''"
    by code_simp
  have p: "prefix_part ''hoosat:36kpp9ks'' = ''hoosat''"
    by code_simp
  have d: "data_part ''hoosat:36kpp9ks'' = ''36kpp9ks''"
    by code_simp
  have f: "first_bad_character ''36kpp9ks'' = None"
    by code_simp
  have v: "verify_checksum ''hoosat'' (symbols_of ''36kpp9ks'')"
    by code_simp
  show ?thesis
    by (rule decode_checksum_only_IndexError) (simp_all add: l p d f v)
qed

section \<open>The failures of decoding\<close>





section \<open>Case\<close>

text \<open>
  Claim C8. For every ASCII text \<open>s\<close> (a valid address is one), decoding its upper-case
  form gives the result of decoding \<open>s\<close>, and every ASCII text with the same lower-case
  form as \<open>s\<close> (so every mixed-case variant of an address, and its lower-case canonical
  form) decodes to the same result as \<open>s\<close>.
\<close>

theorem decode_case_invariant:
  assumes "is_ascii s"
  shows "hoosat_bech32_decode (upper s) = hoosat_bech32_decode s
   \<and> (is_ascii t \<and> lower t = lower s \<longrightarrow> hoosat_bech32_decode t = hoosat_bech32_decode s)"
  using decode_depends_on_lower [of "upper s" s] decode_depends_on_lower [of t s]
  by (simp add: lower_upper)

theorem decode_case_invariant_witness:
  "is_ascii ''hoosat:qyqqqqqqqqqqqqqqqqqqqqqqqqqqqqqqqq6ju4p888''
   \<and> is_ascii ''hoosat:qyqqqqqQQQQQQQQQqqqqqqqqqqqqqqqqqq6Ju4p888''
   \<and> hoosat_bech32_decode ''HOOSAT:QYQQQQQQQQQQQQQQQQQQQQQQQQQQQQQQQQ6JU4P888''
     = Some (Inr (''hoosat'', [0, 0, 0, 0, 0, 0, 0, 0, 0, 0, 0, 0, 0, 0, 0, 0, 0, 0, 0, 0], 1))
   \<and> hoosat_bech32_decode ''hoosat:qyqqqqqQQQQQQQQQqqqqqqqqqqqqqqqqqq6Ju4p888''
     = Some (Inr (''hoosat'', [0, 0, 0, 0, 0, 0, 0, 0, 0, 0, 0, 0, 0, 0, 0, 0, 0, 0, 0, 0], 1))"
proof -
  define s where "s = ''hoosat:qyqqqqqqqqqqqqqqqqqqqqqqqqqqqqqqqq6ju4p888''"
  have a: "is_ascii s"
    unfolding s_def by code_simp
  have b: "is_ascii ''hoosat:qyqqqqqQQQQQQQQQqqqqqqqqqqqqqqqqqq6Ju4p888''"
    by code_simp
  have d: "hoosat_bech32_decode s
      = Some (Inr (''hoosat'', [0, 0, 0, 0, 0, 0, 0, 0, 0, 0, 0, 0, 0, 0, 0, 0, 0, 0, 0, 0], 1))"
    unfolding s_def by code_simp
  have u: "upper s = ''HOOSAT:QYQQQQQQQQQQQQQQQQQQQQQQQQQQQQQQQQ6JU4P888''"
    unfolding s_def by code_simp
  have m: "lower ''hoosat:qyqqqqqQQQQQQQQQqqqqqqqqqqqqqqqqqq6Ju4p888'' = lower s"
    unfolding s_def by code_simp
  have "hoosat_bech32_decode ''HOOSAT:QYQQQQQQQQQQQQQQQQQQQQQQQQQQQQQQQQ6JU4P888''
      = Some (Inr (''hoosat'', [0, 0, 0, 0, 0, 0, 0, 0, 0, 0, 0, 0, 0, 0, 0, 0, 0, 0, 0, 0], 1))"
    and "hoosat_bech32_decode ''hoosat:qyqqqqqQQQQQQQQQqqqqqqqqqqqqqqqqqq6Ju4p888''
      = Some (Inr (''hoosat'', [0, 0, 0, 0, 0, 0, 0, 0, 0, 0, 0, 0, 0, 0, 0, 0, 0, 0, 0, 0], 1))"
    using decode_case_invariant [OF a, of "''hoosat:qyqqqqqQQQQQQQQQqqqqqqqqqqqqqqqqqq6Ju4p888''"]
      b d u m
    by simp_all
  with a b show ?thesis
    by (simp add: s_def)
qed

section \<open>Encoding\<close>

text \<open>
  Claim C5 says that address encoding never fails on a well-formed prefix and payload.
  The symbols are in range (\<open>convert_bits_returns\<close>, \<open>checksum_symbols_range\<close>), but
  \<^verbatim>\<open>hoosat_bech32_encode\<close> returns no address: for every prefix and every payload
  \<^verbatim>\<open>converted + checksum\<close> adds a \<^verbatim>\<open>bytes\<close> object to a list and raises \<^verbatim>\<open>TypeError\<close>.
\<close>

theorem hoosat_bech32_encode_raises_TypeError:
  "hoosat_bech32_encode prefix payload = Some (Inl TypeError)"
proof -
  obtain converted where "convert_bits ([0x01] @ payload) 8 5 True = Some converted"
    using convert_bits_returns [of 5 "[0x01] @ payload" 8 True] by auto
  then show ?thesis
    by (simp add: hoosat_bech32_encode_def calculate_checksum_Inr)
qed

theorem hoosat_bech32_encode_raises_TypeError_witness:
  "hoosat_bech32_encode ''hoosat'' [0, 0, 0, 0, 0, 0, 0, 0, 0, 0, 0, 0, 0, 0, 0, 0, 0, 0, 0, 0]
     = Some (Inl TypeError)"
  by (rule hoosat_bech32_encode_raises_TypeError)

section \<open>Regrouping without padding\<close>

text \<open>
  Claim C3, as the code has it. A call of \<^verbatim>\<open>convert_bits\<close> with \<^verbatim>\<open>pad=False\<close> and a positive
  output width returns and never fails: the result is the
  \<open>length data * from_bits div to_bits\<close> complete symbols, each in range, and for input
  symbols in range they spell the input with its last
  \<open>length data * from_bits mod to_bits\<close> bits dropped, whatever those bits are.
\<close>

theorem convert_bits_unpadded_drops_leftover:
  assumes "0 < to_bits"
  shows "\<exists>ys. convert_bits data from_bits to_bits False = Some ys
           \<and> length ys = length data * from_bits div to_bits
           \<and> in_range to_bits ys
           \<and> (in_range from_bits data \<longrightarrow>
                digits_value to_bits ys =
                  drop_bit (length data * from_bits mod to_bits) (digits_value from_bits data))"
proof -
  obtain ys where ys: "convert_bits data from_bits to_bits False = Some ys" "in_range to_bits ys"
      "length ys = length data * from_bits div to_bits"
    using convert_bits_returns [OF assms, of data from_bits False] by auto
  have "digits_value to_bits ys =
          drop_bit (length data * from_bits mod to_bits) (digits_value from_bits data)"
    if "in_range from_bits data"
    using convert_bits_value_unpadded [OF assms that ys(1)] .
  with ys show ?thesis by blast
qed

theorem convert_bits_unpadded_drops_leftover_witness:
  "0 < (8::nat) \<and> convert_bits [31, 31, 31] 5 8 False = Some [255]"
proof -
  have r: "in_range 5 [31, 31, 31]" "digits_value 5 [31, 31, 31] = 32767"
    by (simp_all add: in_range_def digits_value_def)
  have d: "drop_bit 7 (32767::int) = 255"
    by (simp add: drop_bit_eq_div)
  have "(0::nat) < 8"
    by simp
  from convert_bits_unpadded_drops_leftover [OF this, of "[31, 31, 31]" 5] obtain ys where
    ys: "convert_bits [31, 31, 31] 5 8 False = Some ys" "length ys = 1" "digits_value 8 ys = 255"
    using r d by auto
  from ys(2) obtain y where "ys = [y]"
    by (cases ys) simp_all
  with ys(3) have "ys = [255]"
    by (simp add: digits_value_def)
  with ys(1) show ?thesis by simp
qed

text \<open>Two 5-bit symbols \<open>[0, 3]\<close> leave the two bits \<open>11\<close> over; they are discarded, and
  an address text with these data symbols decodes without any failure.\<close>

theorem convert_bits_unpadded_counterexample:
  "convert_bits [0, 3] 5 8 False = Some [0]
   \<and> digits_value 5 [0, 3] mod 2 ^ (length [0, 3 :: int] * 5 mod 8) = 3
   \<and> hoosat_bech32_decode ''hoosat:qr2ys6zmhf'' = Some (Inr (''hoosat'', [], 0))"
  by code_simp

section \<open>Encoding, then decoding\<close>

text \<open>Facts about the parts the encoder computes and about what the decoder does with
  an alphabet text of in-range symbols that ends in their checksum.\<close>

lemma in_range_append: "in_range w (xs @ ys) = (in_range w xs \<and> in_range w ys)"
  by (simp add: in_range_def)

lemma in_range_checksum_symbols: "in_range 5 (checksum_symbols p)"
  unfolding in_range_def list_all_iff using checksum_symbols_range by fastforce

lemma decode_assembled:
  assumes "p \<noteq> []" "lower p = p" "in_range 5 converted"
    and "calculate_checksum p converted = Inr checksum"
  shows "hoosat_bech32_decode (p @ '':'' @ map (\<lambda>b. CHARSET ! nat b) (converted @ checksum)) =
           (case convert_bits converted 5 8 False of
              None \<Rightarrow> None
            | Some c \<Rightarrow> Some (extract_version_payload p c))"
proof -
  define syms where "syms = converted @ checksum"
  define chars where "chars = map (\<lambda>b. CHARSET ! nat b) syms"
  define s where "s = p @ CHR '':'' # chars"
  have cs: "checksum = checksum_symbols (checksum_polymod p converted)"
    using assms(4) by (simp add: calculate_checksum_Inr)
  have lc: "length checksum = 8"
    by (simp add: cs checksum_symbols_length)
  have rs: "in_range 5 syms"
    by (simp add: syms_def in_range_append assms(3) cs in_range_checksum_symbols)
  have sub: "set chars \<subseteq> set CHARSET"
    unfolding chars_def by (rule base32_chars_in_CHARSET [OF rs])
  have nocolon: "CHR '':'' \<notin> set chars"
    using sub colon_not_in_CHARSET by blast
  have "lower chars = chars"
    using sub by (intro lower_fixed lower_char_CHARSET) blast
  moreover have "lower [CHR '':''] = [CHR '':'']"
    by (simp add: lower_def lower_char_colon)
  ultimately have "lower (p @ [CHR '':''] @ chars) = p @ [CHR '':''] @ chars"
    by (simp only: lower_append assms(2))
  then have low: "lower s = s"
    by (simp add: s_def)
  have pp: "prefix_part s = p" and dp: "data_part s = chars"
    unfolding s_def using nocolon by (simp_all add: prefix_part_split data_part_split)
  have lt: "length chars = length converted + 8"
    by (simp add: chars_def syms_def lc)
  have long: "10 \<le> length s"
    using assms(1) by (cases p) (simp_all add: s_def lt)
  have colon: "CHR '':'' \<in> set s"
    by (simp add: s_def)
  have bad: "first_bad_character chars = None"
    using sub by (auto simp: first_bad_character_def find_None_iff)
  have so: "symbols_of chars = syms"
    unfolding chars_def by (rule symbols_of_base32 [OF rs])
  have ver: "verify_checksum p syms"
    by (simp add: verify_checksum_eq syms_def lc cs [symmetric])
  have tk: "take (length converted) syms = converted"
    by (simp add: syms_def)
  have "hoosat_bech32_decode s =
           (case convert_bits converted 5 8 False of
              None \<Rightarrow> None
            | Some c \<Rightarrow> Some (extract_version_payload p c))"
    using long assms(1)
    by (simp add: hoosat_bech32_decode_cascade low pp dp lt bad so ver tk colon
          split: option.split)
  then show ?thesis
    by (simp add: s_def chars_def syms_def)
qed

text \<open>
  Claim C1 says that decoding inverts encoding. In the code the composition
  \<^verbatim>\<open>hoosat_bech32_decode(hoosat_bech32_encode(p, h))\<close> returns no triple at all: for every
  prefix and every payload the encoder raises \<^verbatim>\<open>TypeError\<close> at \<^verbatim>\<open>converted + checksum\<close>, the
  decoder is never reached, and the exception is the outcome of the round trip, whatever
  the version \<open>v\<close> of the claim.
\<close>

theorem encode_then_decode_raises_TypeError:
  "(case hoosat_bech32_encode p h of
      None \<Rightarrow> None
    | Some (Inl e) \<Rightarrow> Some (Inl e)
    | Some (Inr address) \<Rightarrow> hoosat_bech32_decode address) = Some (Inl TypeError)
   \<and> (case hoosat_bech32_encode p h of
      None \<Rightarrow> None
    | Some (Inl e) \<Rightarrow> Some (Inl e)
    | Some (Inr address) \<Rightarrow> hoosat_bech32_decode address) \<noteq> Some (Inr (p, h, v))"
proof -
  obtain converted where c: "convert_bits ([0x01] @ h) 8 5 True = Some converted"
    using convert_bits_returns [of 5 "[0x01] @ h" 8 True] by auto
  have k: "calculate_checksum p converted = Inr (checksum_symbols (checksum_polymod p converted))"
    by (rule calculate_checksum_Inr)
  have "py_concat (PyList converted) (PyBytes (checksum_symbols (checksum_polymod p converted)))
      = Inl TypeError"
    by simp
  with c k have "hoosat_bech32_encode p h = Some (Inl TypeError)"
    by (simp add: hoosat_bech32_encode_def)
  then show ?thesis
    by simp
qed

theorem encode_then_decode_raises_TypeError_witness:
  "(case hoosat_bech32_encode ''hoosat'' [0, 0, 0, 0, 0, 0, 0, 0, 0, 0, 0, 0, 0, 0, 0, 0, 0, 0, 0, 0] of
      None \<Rightarrow> None
    | Some (Inl e) \<Rightarrow> Some (Inl e)
    | Some (Inr address) \<Rightarrow> hoosat_bech32_decode address) = Some (Inl TypeError)"
  using encode_then_decode_raises_TypeError
    [of "''hoosat''" "[0, 0, 0, 0, 0, 0, 0, 0, 0, 0, 0, 0, 0, 0, 0, 0, 0, 0, 0, 0]" 1]
  by (rule conjunct1)

section \<open>The wallet import format\<close>

lemma init_cases:
  "init network = Inr self \<Longrightarrow>
     (network = ''mainnet'' \<and> self = \<lparr>gen_network = ''mainnet'', gen_prefix = ''hoosat''\<rparr>)
   \<or> (network = ''testnet'' \<and> self = \<lparr>gen_network = ''testnet'', gen_prefix = ''hoosattest''\<rparr>)"
  by (auto simp: init_def NETWORK_PREFIXES_def split: if_splits)

lemma is_bytes_append: "is_bytes (xs @ ys) = (is_bytes xs \<and> is_bytes ys)"
  by (simp add: is_bytes_def)

lemma is_bytes_take: "is_bytes xs \<Longrightarrow> is_bytes (take n xs)"
  unfolding is_bytes_def list_all_iff by (auto dest: in_set_takeD)

lemma wif_decode_encode:
  assumes hash: "\<And>x. length (sha256 x) = 32 \<and> is_bytes (sha256 x)"
    and codec: "\<And>x. is_bytes x \<Longrightarrow> b58decode (b58encode x) = Inr x"
    and key: "length s = 32" "is_bytes s"
  shows "wif_to_private_key sha256 b58decode self' (private_key_to_wif sha256 b58encode self s c) = Inr s"
proof -
  define version_byte :: "int list" where
    "version_byte = (if gen_network self = ''mainnet'' then [0x80] else [0xef])"
  define extended where "extended = (if c then version_byte @ s @ [0x01] else version_byte @ s)"
  define checksum where "checksum = take 4 (sha256 (sha256 extended))"
  have wif: "private_key_to_wif sha256 b58encode self s c = b58encode (extended @ checksum)"
    by (simp add: private_key_to_wif_def Let_def version_byte_def extended_def checksum_def)
  have lv: "length version_byte = 1" and bv: "is_bytes version_byte"
    by (simp_all add: version_byte_def is_bytes_def)
  have lc: "length checksum = 4"
    using hash [of "sha256 extended"] by (simp add: checksum_def)
  have "is_bytes extended"
    using bv key(2) by (simp add: extended_def is_bytes_append) (simp add: is_bytes_def)
  moreover have "is_bytes checksum"
    unfolding checksum_def using hash [of "sha256 extended"] by (intro is_bytes_take) simp
  ultimately have "is_bytes (extended @ checksum)"
    by (simp add: is_bytes_append)
  then have dec: "b58decode (b58encode (extended @ checksum)) = Inr (extended @ checksum)"
    by (rule codec)
  have tk: "take (length (extended @ checksum) - 4) (extended @ checksum) = extended"
    and dr: "drop (length (extended @ checksum) - 4) (extended @ checksum) = checksum"
    by (simp_all add: lc)
  obtain v where v: "version_byte = [v]"
    using lv by (cases version_byte) simp_all
  show ?thesis
  proof (cases c)
    case True
    then have "extended = v # s @ [0x01]"
      by (simp add: extended_def v)
    then have "length extended = 34" "butlast (drop 1 extended) = s"
      using key(1) by (simp_all add: butlast_append)
    then show ?thesis
      unfolding wif wif_to_private_key_def dec Let_def sum.case tk dr
      using checksum_def by simp
  next
    case False
    then have "extended = v # s"
      by (simp add: extended_def v)
    then have "length extended = 33" "drop 1 extended = s"
      using key(1) by simp_all
    then show ?thesis
      unfolding wif wif_to_private_key_def dec Let_def sum.case tk dr
      using checksum_def by simp
  qed
qed

lemma stand_in_hash: "length (stand_in_sha256 x) = 32 \<and> is_bytes (stand_in_sha256 x)"
  by (simp add: stand_in_sha256_def is_bytes_def list_all_iff)

lemma stand_in_codec: "is_bytes x \<Longrightarrow> stand_in_b58decode (stand_in_b58encode x) = Inr x"
proof -
  assume b: "is_bytes x"
  have "int (of_char (char_of (nat y) :: char)) = y" if "y \<in> set x" for y
  proof -
    have "0 \<le> y \<and> y < 256"
      using b that by (simp add: is_bytes_def list_all_iff)
    then have "nat y < 256" "int (nat y) = y"
      by auto
    then show ?thesis
      by simp
  qed
  then show ?thesis
    by (simp add: stand_in_b58decode_def stand_in_b58encode_def map_idI)
qed

text \<open>
  Claim C4, as the code has it. For every hash function with 32-byte digests and every
  base58 codec whose decoder inverts its encoder on byte strings, for both networks,
  both compression flags and every 32-byte secret \<open>s\<close>:
  \<^verbatim>\<open>wif_to_private_key(private_key_to_wif(s, c))\<close> returns \<open>s\<close>. The decoder returns the
  secret alone; it reports neither the compression flag nor the network.
\<close>

theorem wif_round_trip:
  assumes "\<And>x. length (sha256 x) = 32 \<and> is_bytes (sha256 x)"
    and "\<And>x. is_bytes x \<Longrightarrow> b58decode (b58encode x) = Inr x"
    and "init network = Inr self"
    and "length s = 32" "is_bytes s"
  shows "wif_to_private_key sha256 b58decode self (private_key_to_wif sha256 b58encode self s c) = Inr s"
  using assms(1,2,4,5) by (rule wif_decode_encode)

theorem wif_round_trip_witness:
  "init ''testnet'' = Inr \<lparr>gen_network = ''testnet'', gen_prefix = ''hoosattest''\<rparr>
   \<and> length (replicate 32 (1::int)) = 32 \<and> is_bytes (replicate 32 1)
   \<and> wif_to_private_key stand_in_sha256 stand_in_b58decode
        \<lparr>gen_network = ''testnet'', gen_prefix = ''hoosattest''\<rparr>
        (private_key_to_wif stand_in_sha256 stand_in_b58encode
           \<lparr>gen_network = ''testnet'', gen_prefix = ''hoosattest''\<rparr> (replicate 32 1) True)
       = Inr (replicate 32 1)"
proof -
  have n: "init ''testnet'' = Inr \<lparr>gen_network = ''testnet'', gen_prefix = ''hoosattest''\<rparr>"
    by (simp add: init_def NETWORK_PREFIXES_def)
  have k: "length (replicate 32 (1::int)) = 32" "is_bytes (replicate 32 1)"
    by (simp_all add: is_bytes_def list_all_iff)
  from wif_round_trip [of stand_in_sha256 stand_in_b58decode stand_in_b58encode,
      OF stand_in_hash stand_in_codec n k]
  show ?thesis
    using n k by simp
qed

text \<open>The same secret encoded for mainnet with the compression marker and for testnet
  without it decodes to the same result, the secret: the result of decoding does not
  tell the flag or the network.\<close>

theorem wif_round_trip_counterexample:
  "wif_to_private_key stand_in_sha256 stand_in_b58decode
      \<lparr>gen_network = ''mainnet'', gen_prefix = ''hoosat''\<rparr>
      (private_key_to_wif stand_in_sha256 stand_in_b58encode
         \<lparr>gen_network = ''mainnet'', gen_prefix = ''hoosat''\<rparr> (replicate 32 1) True)
     = Inr (replicate 32 1)
   \<and> wif_to_private_key stand_in_sha256 stand_in_b58decode
      \<lparr>gen_network = ''mainnet'', gen_prefix = ''hoosat''\<rparr>
      (private_key_to_wif stand_in_sha256 stand_in_b58encode
         \<lparr>gen_network = ''testnet'', gen_prefix = ''hoosattest''\<rparr> (replicate 32 1) False)
     = Inr (replicate 32 1)"
proof -
  have k: "length (replicate 32 (1::int)) = 32" "is_bytes (replicate 32 1)"
    by (simp_all add: is_bytes_def list_all_iff)
  show ?thesis
    by (intro conjI wif_decode_encode [OF stand_in_hash stand_in_codec k])
qed

end
